theory Spec2Isabelle
  imports Complex_Main "HOL-Library.Word" "HOL-Library.Multiset" "HOL-Library.Product_Lexorder"
begin

section \<open>The block request scheduler of libtransmission/peer-mgr-wishlist.cc\<close>

subsection \<open>Machine types\<close>

text \<open>
  The integer types the file uses, as transmission.h and the platform declare them:
  piece and block indices are 32-bit unsigned (\<open>uint32_t\<close>), \<open>size_t\<close> and the speed
  \<open>tr_bytes_per_second_t\<close> are 64-bit unsigned, \<open>time_t\<close> is a 64-bit value, a
  priority is a signed byte (\<open>int8_t\<close>, read with \<open>sint\<close>), and \<open>int\<close> is 32-bit
  two's complement.
\<close>

type_synonym tr_piece_index_t = "32 word"
type_synonym tr_block_index_t = "32 word"
type_synonym tr_priority_t = "8 word"
type_synonym size_t = "64 word"
type_synonym time_t = "64 word"
type_synonym SaltType = tr_piece_index_t

text \<open>\<open>tr_block_span_t\<close>: the half-open range \<open>{begin, end}\<close> of block indices.\<close>

record tr_block_span_t =
  span_begin :: tr_block_index_t
  span_end :: tr_block_index_t

subsection \<open>makeSpans\<close>

text \<open>
  The body of the \<open>for\<close> loop of \<open>makeSpans\<close>: \<open>cur\<close> is the span being grown, the list
  holds \<open>sorted_blocks[i]\<close> for the remaining \<open>i\<close>, and \<open>spans\<close> is the output vector.
  The final \<open>push_back\<close> is the base case.
\<close>

fun makeSpans_loop ::
  "tr_block_span_t \<Rightarrow> tr_block_index_t list \<Rightarrow> tr_block_span_t list \<Rightarrow> tr_block_span_t list" where
  "makeSpans_loop cur [] spans = spans @ [cur]"
| "makeSpans_loop cur (b # bs) spans =
     (if span_end cur = b
      then makeSpans_loop (cur\<lparr>span_end := span_end cur + 1\<rparr>) bs spans
      else makeSpans_loop \<lparr>span_begin = b, span_end = b + 1\<rparr> bs (spans @ [cur]))"

fun makeSpans :: "tr_block_index_t list \<Rightarrow> tr_block_span_t list" where
  "makeSpans [] = []"
| "makeSpans (b # bs) = makeSpans_loop \<lparr>span_begin = b, span_end = b + 1\<rparr> bs []"

text \<open>Expansion of a span into the block indices \<open>begin, begin + 1, ..., end - 1\<close>.\<close>

definition expand_span :: "tr_block_span_t \<Rightarrow> tr_block_index_t list" where
  "expand_span s = map of_nat [unat (span_begin s)..<unat (span_end s)]"

definition expand_spans :: "tr_block_span_t list \<Rightarrow> tr_block_index_t list" where
  "expand_spans spans = concat (map expand_span spans)"

text \<open>A span is well formed when \<open>begin < end\<close>.\<close>

definition span_ok :: "tr_block_span_t \<Rightarrow> bool" where
  "span_ok s = (span_begin s < span_end s)"

text \<open>
  Spans are in ascending order, pairwise disjoint and non-adjacent: every span ends
  strictly before the begin of every later span.
\<close>

definition spans_ordered :: "tr_block_span_t list \<Rightarrow> bool" where
  "spans_ordered spans = sorted_wrt (\<lambda>s t. span_end s < span_begin t) spans"

subsection \<open>Candidate and its ordering\<close>

text \<open>
  The calls made on the mediator (and the cancellation \<open>tr_cancelRequestForBlock\<close>), each
  with its arguments and the value it returned. The scheduler's functions return the
  sequence of calls they made, in order.
\<close>

datatype 'peer MediatorCall =
    CountAllPieces tr_piece_index_t
  | ClientCanRequestPiece tr_piece_index_t bool
  | CountMissingBlocks tr_piece_index_t size_t
  | Priority tr_piece_index_t tr_priority_t
  | BlockSpan tr_piece_index_t tr_block_span_t
  | ClientCanRequestBlock tr_block_index_t bool
  | CountActiveRequests tr_block_index_t size_t
  | GetPeersForActiveRequests tr_block_index_t "('peer \<times> time_t) list"
  | IsSequentialDownload bool
  | SequentialDownloadFromPiece tr_piece_index_t
  | IsEndgame bool
  | CancelRequestForBlock 'peer tr_block_index_t

text \<open>
  \<open>Wishlist::Mediator\<close>, the interface the scheduler queries (declared in
  peer-mgr-wishlist.h). The piece and block queries do not depend on the table of active
  requests; \<open>countActiveRequests\<close> and \<open>getPeersForActiveRequests\<close> read that table,
  whose state \<open>'st\<close> a cancellation changes.
\<close>

record ('st, 'peer) Mediator =
  countAllPieces :: tr_piece_index_t
  clientCanRequestPiece :: "tr_piece_index_t \<Rightarrow> bool"
  countMissingBlocks :: "tr_piece_index_t \<Rightarrow> size_t"
  priority :: "tr_piece_index_t \<Rightarrow> tr_priority_t"
  blockSpan :: "tr_piece_index_t \<Rightarrow> tr_block_span_t"
  clientCanRequestBlock :: "tr_block_index_t \<Rightarrow> bool"
  isSequentialDownload :: bool
  sequentialDownloadFromPiece :: tr_piece_index_t
  isEndgame :: bool
  countActiveRequests :: "'st \<Rightarrow> tr_block_index_t \<Rightarrow> size_t"
  getPeersForActiveRequests :: "'st \<Rightarrow> tr_block_index_t \<Rightarrow> ('peer \<times> time_t) list"

record Candidate =
  piece :: tr_piece_index_t
  n_blocks_missing :: size_t
  priority :: tr_priority_t
  salt :: SaltType

text \<open>\<open>Candidate::compare\<close>: -1, 0 or 1. Priorities are compared as signed values.\<close>

definition compare :: "Candidate \<Rightarrow> Candidate \<Rightarrow> int" where
  "compare this that =
     (if n_blocks_missing this \<noteq> n_blocks_missing that
      then (if n_blocks_missing this < n_blocks_missing that then - 1 else 1)
      else if priority this \<noteq> priority that
      then (if sint (priority that) < sint (priority this) then - 1 else 1)
      else if salt this \<noteq> salt that
      then (if salt this < salt that then - 1 else 1)
      else 0)"

text \<open>\<open>Candidate::operator<\<close>.\<close>

definition Candidate_less :: "Candidate \<Rightarrow> Candidate \<Rightarrow> bool" where
  "Candidate_less this that = (compare this that < 0)"

subsection \<open>What the translation unit uses from elsewhere\<close>

text \<open>
  The functions the file calls that are defined outside it: the clock \<open>tr_time\<close> (a cached
  value of the session, constant during a call), the peer's
  \<open>get_piece_speed_bytes_per_second(now, TR_PEER_TO_CLIENT)\<close>,
  \<open>tr_cancelRequestForBlock\<close>, the salt stream \<open>tr_salt_shaker\<close> (\<open>salter k\<close> is the value
  of its \<open>k\<close>-th draw), and \<open>std::partial_sort\<close> (\<open>partial_sort middle xs\<close> for
  \<open>std::partial_sort(begin, begin + middle, end)\<close> under \<open>Candidate::operator<\<close>).
\<close>

record ('st, 'peer) Externals =
  tr_time :: time_t
  get_piece_speed_bytes_per_second :: "'peer \<Rightarrow> time_t \<Rightarrow> size_t"
  tr_cancelRequestForBlock :: "'peer \<Rightarrow> tr_block_index_t \<Rightarrow> 'st \<Rightarrow> 'st"
  salter :: "nat \<Rightarrow> SaltType"
  partial_sort :: "nat \<Rightarrow> Candidate list \<Rightarrow> Candidate list"

text \<open>
  What the C++ standard promises of \<open>std::partial_sort\<close>: the result is a rearrangement
  of the input, its first \<open>middle\<close> elements are in non-descending order, and no later
  element is less than one of them. The order of the later elements is unspecified.
\<close>

definition partial_sort_post :: "nat \<Rightarrow> Candidate list \<Rightarrow> Candidate list \<Rightarrow> bool" where
  "partial_sort_post middle xs ys =
     (mset ys = mset xs
      \<and> sorted_wrt (\<lambda>a b. \<not> Candidate_less b a) (take middle ys)
      \<and> (\<forall>a\<in>set (take middle ys). \<forall>b\<in>set (drop middle ys). \<not> Candidate_less b a))"

definition partial_sort_contract :: "(nat \<Rightarrow> Candidate list \<Rightarrow> Candidate list) \<Rightarrow> bool" where
  "partial_sort_contract psort =
     (\<forall>middle xs. middle \<le> length xs \<longrightarrow> partial_sort_post middle xs (psort middle xs))"

text \<open>
  Modelled from the spec: \<open>tr_block_info::BlockSize\<close> is declared in a header that is not
  part of the file; the spec's scenario D gives its value, 16384 bytes.
\<close>

definition BlockSize :: size_t where
  "BlockSize = 16384"

subsection \<open>getCandidates\<close>

text \<open>
  The first loop of \<open>getCandidates\<close>, over \<open>i = 0 .. n_pieces - 1\<close>: it collects the pieces
  the client may request that still miss blocks, with that count.
\<close>

function wanted_pieces_loop ::
  "('st, 'peer) Mediator \<Rightarrow> tr_piece_index_t \<Rightarrow> tr_piece_index_t
    \<Rightarrow> (tr_piece_index_t \<times> size_t) list \<Rightarrow> 'peer MediatorCall list
    \<Rightarrow> (tr_piece_index_t \<times> size_t) list \<times> 'peer MediatorCall list" where
  "wanted_pieces_loop M n_pieces i wanted_pieces trace =
     (if i < n_pieces then
        (if \<not> clientCanRequestPiece M i
         then wanted_pieces_loop M n_pieces (i + 1) wanted_pieces
                (trace @ [ClientCanRequestPiece i False])
         else if countMissingBlocks M i = 0
         then wanted_pieces_loop M n_pieces (i + 1) wanted_pieces
                (trace @ [ClientCanRequestPiece i True, CountMissingBlocks i 0])
         else wanted_pieces_loop M n_pieces (i + 1)
                (wanted_pieces @ [(i, countMissingBlocks M i)])
                (trace @ [ClientCanRequestPiece i True,
                        CountMissingBlocks i (countMissingBlocks M i)]))
      else (wanted_pieces, trace))"
  by pat_completeness auto
termination
  by (relation "measure (\<lambda>(M, n_pieces, i, wanted_pieces, trace). unat n_pieces - unat i)")
     (simp, unat_arith, unat_arith, unat_arith)

text \<open>The vector \<open>wanted_pieces\<close> after the first loop.\<close>

definition wanted_pieces_vector ::
  "('st, 'peer) Mediator \<Rightarrow> (tr_piece_index_t \<times> size_t) list" where
  "wanted_pieces_vector M =
     fst (wanted_pieces_loop M (countAllPieces M) 0 [] [CountAllPieces (countAllPieces M)])"

text \<open>
  \<open>std::rotate(first, first + k, last)\<close>: the element at \<open>first + k\<close> becomes the first
  one, and the elements before it follow the former tail.
\<close>

definition std_rotate :: "nat \<Rightarrow> 'a list \<Rightarrow> 'a list" where
  "std_rotate k xs = drop k xs @ take k xs"

text \<open>
  The second loop of \<open>getCandidates\<close>, over the wanted pieces in their (rotated) order;
  \<open>k\<close> counts the salts drawn so far. The salt is computed before the priority is queried.
\<close>

fun candidates_loop ::
  "('st, 'peer) Mediator \<Rightarrow> (nat \<Rightarrow> SaltType) \<Rightarrow> bool \<Rightarrow> nat
    \<Rightarrow> (tr_piece_index_t \<times> size_t) list
    \<Rightarrow> Candidate list \<times> 'peer MediatorCall list" where
  "candidates_loop M salter_fn is_sequential k [] = ([], [])"
| "candidates_loop M salter_fn is_sequential k ((p, n_missing) # rest) =
     (case candidates_loop M salter_fn is_sequential (if is_sequential then k else Suc k) rest of
        (candidates, trace) \<Rightarrow>
          (\<lparr>piece = p, n_blocks_missing = n_missing, priority = Mediator.priority M p,
            salt = (if is_sequential then p else salter_fn k)\<rparr> # candidates,
           Priority p (Mediator.priority M p) # trace))"

definition getCandidates ::
  "('st, 'peer) Mediator \<Rightarrow> (nat \<Rightarrow> SaltType) \<Rightarrow> Candidate list \<times> 'peer MediatorCall list" where
  "getCandidates M salter_fn =
     (case wanted_pieces_loop M (countAllPieces M) 0 [] [CountAllPieces (countAllPieces M)] of
        (wanted_pieces, trace1) \<Rightarrow>
          (let is_sequential = isSequentialDownload M;
               sequential_from_piece = sequentialDownloadFromPiece M;
               rotated =
                 (if is_sequential \<and> 0 < sequential_from_piece
                     \<and> unat sequential_from_piece < length wanted_pieces
                  then std_rotate (unat sequential_from_piece) wanted_pieces
                  else wanted_pieces)
           in case candidates_loop M salter_fn is_sequential 0 rotated of
                (candidates, trace2) \<Rightarrow>
                  (candidates,
                   trace1 @ [IsSequentialDownload is_sequential,
                           SequentialDownloadFromPiece sequential_from_piece] @ trace2)))"

subsection \<open>cancelSlowRequest\<close>

text \<open>
  \<open>int res = (peer_speed / current_peer_speed)
               - (((now - when) * peer_speed) / tr_block_info::BlockSize)\<close>:
  the operands are 64-bit, the arithmetic wraps modulo \<open>2^64\<close>, and the result is
  narrowed to the 32-bit \<open>int\<close>.
\<close>

definition slow_request_res :: "size_t \<Rightarrow> size_t \<Rightarrow> time_t \<Rightarrow> time_t \<Rightarrow> 32 word" where
  "slow_request_res peer_speed current_peer_speed now when =
     ucast ((peer_speed div current_peer_speed) - (((now - when) * peer_speed) div BlockSize))"

text \<open>
  The score as the spec writes it, \<open>r = v_new / v_cur - ((now - t) * v_new) / BS\<close>, over
  the unbounded integers (for non-negative operands, truncating division is \<open>div\<close>).
  It is what \<open>res\<close> is compared with, not part of the code.
\<close>

definition score_as_specified :: "int \<Rightarrow> int \<Rightarrow> int \<Rightarrow> int \<Rightarrow> int" where
  "score_as_specified v_new v_cur now t = v_new div v_cur - ((now - t) * v_new) div 16384"

text \<open>\<open>bool is_slow = res > 1.5\<close>: the \<open>int\<close> is converted to \<open>double\<close> exactly.\<close>

definition is_slow :: "32 word \<Rightarrow> bool" where
  "is_slow res = (1.5 < real_of_int (sint res))"

text \<open>
  The loop of \<open>cancelSlowRequest\<close> over the active requests \<open>(current_peer, when)\<close> of the
  block. It returns the state of the request table and the calls it made.
\<close>

fun cancelSlowRequest_loop ::
  "('st, 'peer) Externals \<Rightarrow> time_t \<Rightarrow> size_t \<Rightarrow> tr_block_index_t
    \<Rightarrow> ('peer \<times> time_t) list \<Rightarrow> 'st \<Rightarrow> 'st \<times> 'peer MediatorCall list" where
  "cancelSlowRequest_loop X now peer_speed block [] st = (st, [])"
| "cancelSlowRequest_loop X now peer_speed block ((current_peer, when) # peers) st =
     (if get_piece_speed_bytes_per_second X current_peer now = 0
      then cancelSlowRequest_loop X now peer_speed block peers st
      else if is_slow (slow_request_res peer_speed
                        (get_piece_speed_bytes_per_second X current_peer now) now when)
      then (tr_cancelRequestForBlock X current_peer block st,
            [CancelRequestForBlock current_peer block])
      else cancelSlowRequest_loop X now peer_speed block peers st)"

definition cancelSlowRequest ::
  "('st, 'peer) Mediator \<Rightarrow> ('st, 'peer) Externals \<Rightarrow> 'st \<Rightarrow> tr_block_index_t \<Rightarrow> 'peer
    \<Rightarrow> 'st \<times> 'peer MediatorCall list" where
  "cancelSlowRequest M X st block peer =
     (let now = tr_time X;
          peers = getPeersForActiveRequests M st block;
          peer_speed = get_piece_speed_bytes_per_second X peer now
      in if peer_speed = 0 then (st, [GetPeersForActiveRequests block peers])
         else (case cancelSlowRequest_loop X now peer_speed block peers st of
                 (st', trace) \<Rightarrow> (st', GetPeersForActiveRequests block peers # trace)))"

subsection \<open>Wishlist::next\<close>

text \<open>
  Lines 215 to 221 of the inner loop: in sequential mode the active requests of the block
  are counted, and when there is one, \<open>cancelSlowRequest\<close> runs.
\<close>

definition preempt ::
  "('st, 'peer) Mediator \<Rightarrow> ('st, 'peer) Externals \<Rightarrow> 'peer \<Rightarrow> bool \<Rightarrow> tr_block_index_t
    \<Rightarrow> 'st \<Rightarrow> 'st \<times> 'peer MediatorCall list" where
  "preempt M X peer is_sequential block st =
     (if is_sequential
      then (if 0 < countActiveRequests M st block
            then (case cancelSlowRequest M X st block peer of
                    (st', trace) \<Rightarrow>
                      (st', CountActiveRequests block (countActiveRequests M st block) # trace))
            else (st, [CountActiveRequests block (countActiveRequests M st block)]))
      else (st, []))"

text \<open>
  The body of the inner loop for one block: the new state of the request table, whether
  the block is inserted into \<open>blocks\<close>, and the calls made.
\<close>

definition visit_block ::
  "('st, 'peer) Mediator \<Rightarrow> ('st, 'peer) Externals \<Rightarrow> 'peer \<Rightarrow> bool \<Rightarrow> tr_block_index_t
    \<Rightarrow> 'st \<Rightarrow> 'st \<times> bool \<times> 'peer MediatorCall list" where
  "visit_block M X peer is_sequential block st =
     (if \<not> clientCanRequestBlock M block
      then (st, False, [ClientCanRequestBlock block False])
      else (case preempt M X peer is_sequential block st of
              (st', trace) \<Rightarrow>
                (let n_peers = countActiveRequests M st' block;
                     max_peers = (if isEndgame M then 2 else 1)
                 in (st', \<not> max_peers \<le> n_peers,
                     ClientCanRequestBlock block True # trace
                       @ [CountActiveRequests block n_peers, IsEndgame (isEndgame M)]))))"

text \<open>
  The inner loop, \<open>for (block = begin; block < end && std::size(blocks) < n_wanted_blocks;
  ++block)\<close>. \<open>blocks\<close> is the \<open>std::set\<close>; its size, at most \<open>2^32\<close>, is compared with
  \<open>n_wanted_blocks\<close> as a number.
\<close>

function blocks_loop ::
  "('st, 'peer) Mediator \<Rightarrow> ('st, 'peer) Externals \<Rightarrow> 'peer \<Rightarrow> size_t \<Rightarrow> bool
    \<Rightarrow> tr_block_index_t \<Rightarrow> tr_block_index_t
    \<Rightarrow> 'st \<Rightarrow> tr_block_index_t set \<Rightarrow> 'peer MediatorCall list
    \<Rightarrow> 'st \<times> tr_block_index_t set \<times> 'peer MediatorCall list" where
  "blocks_loop M X peer n_wanted_blocks is_sequential end_block block st blocks trace =
     (if block < end_block \<and> card blocks < unat n_wanted_blocks
      then (case visit_block M X peer is_sequential block st of
              (st', selected, calls) \<Rightarrow>
                blocks_loop M X peer n_wanted_blocks is_sequential end_block (block + 1) st'
                  (if selected then insert block blocks else blocks) (trace @ calls))
      else (st, blocks, trace))"
  by pat_completeness auto
termination
  by (relation "measure (\<lambda>(M, X, peer, n_wanted_blocks, is_sequential, end_block, block,
                          st, blocks, trace). unat end_block - unat block)")
     (simp, unat_arith)

text \<open>The outer loop, over the candidates in their order.\<close>

fun candidates_mining_loop ::
  "('st, 'peer) Mediator \<Rightarrow> ('st, 'peer) Externals \<Rightarrow> 'peer \<Rightarrow> size_t \<Rightarrow> bool
    \<Rightarrow> Candidate list
    \<Rightarrow> 'st \<Rightarrow> tr_block_index_t set \<Rightarrow> 'peer MediatorCall list
    \<Rightarrow> 'st \<times> tr_block_index_t set \<times> 'peer MediatorCall list" where
  "candidates_mining_loop M X peer n_wanted_blocks is_sequential [] st blocks trace =
     (st, blocks, trace)"
| "candidates_mining_loop M X peer n_wanted_blocks is_sequential (candidate # rest)
       st blocks trace =
     (if unat n_wanted_blocks \<le> card blocks then (st, blocks, trace)
      else (case blocks_loop M X peer n_wanted_blocks is_sequential
                   (span_end (blockSpan M (piece candidate)))
                   (span_begin (blockSpan M (piece candidate)))
                   st blocks
                   (trace @ [BlockSpan (piece candidate) (blockSpan M (piece candidate))]) of
              (st', blocks', trace') \<Rightarrow>
                candidates_mining_loop M X peer n_wanted_blocks is_sequential rest
                  st' blocks' trace'))"

text \<open>
  The candidates in the order in which \<open>next\<close> walks them: \<open>getCandidates\<close>, then the
  partial sort of the first \<open>min(size, 30)\<close> unless the download is sequential.
\<close>

definition MaxSortedPieces :: nat where
  "MaxSortedPieces = 30"

definition ordered_candidates ::
  "('st, 'peer) Mediator \<Rightarrow> ('st, 'peer) Externals
    \<Rightarrow> Candidate list \<times> 'peer MediatorCall list" where
  "ordered_candidates M X =
     (case getCandidates M (salter X) of
        (candidates, trace) \<Rightarrow>
          (let is_sequential = isSequentialDownload M
           in (if \<not> is_sequential
               then partial_sort X (min (length candidates) MaxSortedPieces) candidates
               else candidates,
               trace @ [IsSequentialDownload is_sequential])))"

text \<open>
  \<open>next\<close> up to the copy of the set into \<open>blocks_v\<close>, for \<open>n_wanted_blocks \<noteq> 0\<close>: the
  ascending sequence handed to \<open>makeSpans\<close>, the final request table and the calls made.
\<close>

definition next_blocks ::
  "('st, 'peer) Mediator \<Rightarrow> ('st, 'peer) Externals \<Rightarrow> size_t \<Rightarrow> 'peer \<Rightarrow> 'st
    \<Rightarrow> tr_block_index_t list \<times> 'st \<times> 'peer MediatorCall list" where
  "next_blocks M X n_wanted_blocks peer st =
     (case ordered_candidates M X of
        (candidates, trace) \<Rightarrow>
          (case candidates_mining_loop M X peer n_wanted_blocks (isSequentialDownload M)
                  candidates st {} trace of
             (st', blocks, trace') \<Rightarrow> (sorted_list_of_set blocks, st', trace')))"

text \<open>\<open>Wishlist::next\<close>: the spans, the final request table and the calls made.\<close>

definition Wishlist_next ::
  "('st, 'peer) Mediator \<Rightarrow> ('st, 'peer) Externals \<Rightarrow> size_t \<Rightarrow> 'peer \<Rightarrow> 'st
    \<Rightarrow> tr_block_span_t list \<times> 'st \<times> 'peer MediatorCall list" where
  "Wishlist_next M X n_wanted_blocks peer st =
     (if n_wanted_blocks = 0 then ([], st, [])
      else (case next_blocks M X n_wanted_blocks peer st of
              (blocks_v, st', trace) \<Rightarrow> (makeSpans blocks_v, st', trace)))"

subsection \<open>Predicates on the trace of calls\<close>

fun is_cancellation :: "'peer MediatorCall \<Rightarrow> bool" where
  "is_cancellation (CancelRequestForBlock p b) = True"
| "is_cancellation c = False"

fun is_preemption :: "'peer MediatorCall \<Rightarrow> bool" where
  "is_preemption (GetPeersForActiveRequests b peers) = True"
| "is_preemption c = False"

text \<open>
  The trace holds the re-read of the active requests of block \<open>b\<close> (the query of line
  224, which the query \<open>isEndgame\<close> follows at once), and the count it returned was
  below \<open>max_peers\<close>.
\<close>

definition reread_below_max ::
  "('st, 'peer) Mediator \<Rightarrow> tr_block_index_t \<Rightarrow> 'peer MediatorCall list \<Rightarrow> bool" where
  "reread_below_max M b trace =
     (\<exists>pre k post. trace = pre @ [CountActiveRequests b k, IsEndgame (isEndgame M)] @ post
        \<and> k < (if isEndgame M then 2 else 1))"

text \<open>
  The trace holds a re-read of the active requests of block \<open>b\<close> whose count was at
  least \<open>max_peers\<close>: the block was passed over by the duplication policy.
\<close>

definition reread_at_max ::
  "('st, 'peer) Mediator \<Rightarrow> tr_block_index_t \<Rightarrow> 'peer MediatorCall list \<Rightarrow> bool" where
  "reread_at_max M b trace =
     (\<exists>pre k post. trace = pre @ [CountActiveRequests b k, IsEndgame (isEndgame M)] @ post
        \<and> (if isEndgame M then 2 else 1) \<le> k)"

text \<open>
  Block \<open>b\<close> has been dealt with: it is in the set, or it is not requestable, or the
  duplication policy passed it over.
\<close>

definition examined ::
  "('st, 'peer) Mediator \<Rightarrow> tr_block_index_t set \<Rightarrow> 'peer MediatorCall list
    \<Rightarrow> tr_block_index_t \<Rightarrow> bool" where
  "examined M blocks trace b =
     (b \<in> blocks \<or> \<not> clientCanRequestBlock M b \<or> reread_at_max M b trace)"

text \<open>
  When a call may follow the calls \<open>pre\<close> made before it: \<open>getPeersForActiveRequests\<close>,
  the first call of the preemption routine, only in sequential mode and right after the
  block was found requestable and its active requests were counted as more than 0; a
  cancellation only right after \<open>getPeersForActiveRequests\<close> for the same block.
\<close>

fun call_guarded ::
  "('st, 'peer) Mediator \<Rightarrow> 'peer MediatorCall list \<Rightarrow> 'peer MediatorCall \<Rightarrow> bool" where
  "call_guarded M pre (GetPeersForActiveRequests b peers) =
     (isSequentialDownload M \<and> clientCanRequestBlock M b
      \<and> (\<exists>pre' k. pre = pre' @ [ClientCanRequestBlock b True, CountActiveRequests b k]
            \<and> 0 < k))"
| "call_guarded M pre (CancelRequestForBlock p b) =
     (\<exists>pre' peers. pre = pre' @ [GetPeersForActiveRequests b peers])"
| "call_guarded M pre c = True"

definition calls_guarded ::
  "('st, 'peer) Mediator \<Rightarrow> 'peer MediatorCall list \<Rightarrow> bool" where
  "calls_guarded M trace = (\<forall>pre c post. trace = pre @ c # post \<longrightarrow> call_guarded M pre c)"

text \<open>Block \<open>b\<close> lies in the half-open range of the span.\<close>

definition span_contains :: "tr_block_span_t \<Rightarrow> tr_block_index_t \<Rightarrow> bool" where
  "span_contains s b = (span_begin s \<le> b \<and> b < span_end s)"

subsection \<open>A concrete mediator\<close>

text \<open>
  An instance of the interfaces, to run the scheduler on: the request table is the list
  of the active requests \<open>(block, peer, time)\<close>, peers are numbers, a cancellation removes
  the peer's request for the block, and \<open>std::partial_sort\<close> is a sort of the whole
  vector by the key of the candidate order.
\<close>

type_synonym request_table = "(tr_block_index_t \<times> nat \<times> time_t) list"

definition Candidate_key :: "Candidate \<Rightarrow> nat \<times> int \<times> nat" where
  "Candidate_key c = (unat (n_blocks_missing c), - sint (priority c), unat (salt c))"

definition sort_all :: "nat \<Rightarrow> Candidate list \<Rightarrow> Candidate list" where
  "sort_all middle xs = sort_key Candidate_key xs"

definition table_mediator ::
  "tr_piece_index_t \<Rightarrow> (tr_piece_index_t \<Rightarrow> bool) \<Rightarrow> (tr_piece_index_t \<Rightarrow> size_t)
    \<Rightarrow> (tr_piece_index_t \<Rightarrow> tr_priority_t) \<Rightarrow> (tr_piece_index_t \<Rightarrow> tr_block_span_t)
    \<Rightarrow> (tr_block_index_t \<Rightarrow> bool) \<Rightarrow> bool \<Rightarrow> tr_piece_index_t \<Rightarrow> bool
    \<Rightarrow> (request_table, nat) Mediator" where
  "table_mediator n_pieces can_piece missing prio bspan can_block sequential from_piece endgame =
     \<lparr>countAllPieces = n_pieces, clientCanRequestPiece = can_piece,
      countMissingBlocks = missing, priority = prio, blockSpan = bspan,
      clientCanRequestBlock = can_block, isSequentialDownload = sequential,
      sequentialDownloadFromPiece = from_piece, isEndgame = endgame,
      countActiveRequests = (\<lambda>st b. of_nat (length (filter (\<lambda>r. fst r = b) st))),
      getPeersForActiveRequests = (\<lambda>st b. map snd (filter (\<lambda>r. fst r = b) st))\<rparr>"

definition table_externals ::
  "time_t \<Rightarrow> (nat \<Rightarrow> size_t) \<Rightarrow> (request_table, nat) Externals" where
  "table_externals now speed =
     \<lparr>tr_time = now, get_piece_speed_bytes_per_second = (\<lambda>p t. speed p),
      tr_cancelRequestForBlock =
        (\<lambda>p b st. filter (\<lambda>r. \<not> (fst r = b \<and> fst (snd r) = p)) st),
      salter = (\<lambda>k. of_nat (7 * k + 3)),
      partial_sort = sort_all\<rparr>"

text \<open>Pieces of four blocks each: piece \<open>p\<close> owns the blocks \<open>4p .. 4p + 3\<close>.\<close>

definition four_blocks :: "tr_piece_index_t \<Rightarrow> tr_block_span_t" where
  "four_blocks p = \<lparr>span_begin = 4 * p, span_end = 4 * p + 4\<rparr>"

text \<open>
  Scenario A of the spec: three pieces missing 3, 1 and 2 blocks, nothing requested yet,
  neither sequential nor endgame.
\<close>

definition scenario_A :: "(request_table, nat) Mediator" where
  "scenario_A =
     table_mediator 3 (\<lambda>p. True) (\<lambda>p. if p = 0 then 3 else if p = 1 then 1 else 2)
       (\<lambda>p. 0) four_blocks (\<lambda>b. True) False 0 False"

text \<open>
  Scenario B of the spec: one piece with the blocks 0, 1, 2, which have 1, 2 and 0 active
  requests (the table \<open>scenario_B_requests\<close>), in endgame.
\<close>

definition scenario_B :: "(request_table, nat) Mediator" where
  "scenario_B =
     table_mediator 1 (\<lambda>p. True) (\<lambda>p. 3) (\<lambda>p. 0)
       (\<lambda>p. \<lparr>span_begin = 0, span_end = 3\<rparr>) (\<lambda>b. True) False 0 True"

definition scenario_B_requests :: request_table where
  "scenario_B_requests = [(0, 1, 90), (1, 1, 91), (1, 2, 92)]"

text \<open>
  Scenarios C, D and E of the spec: sequential download from piece 2 of three pieces, all
  wanted; block 10 is requested from peer 1 since time 99, and the clock shows 100.
  Peer 1 delivers 1000 bytes per second; the asking peer 0 delivers 10000 (scenario D)
  or 1200 (scenario E).
\<close>

definition scenario_D :: "(request_table, nat) Mediator" where
  "scenario_D =
     table_mediator 3 (\<lambda>p. True) (\<lambda>p. 4) (\<lambda>p. 0) four_blocks (\<lambda>b. True) True 2 False"

definition scenario_D_requests :: request_table where
  "scenario_D_requests = [(10, 1, 99)]"

definition scenario_D_externals :: "(request_table, nat) Externals" where
  "scenario_D_externals = table_externals 100 (\<lambda>p. if p = 0 then 10000 else 1000)"

definition scenario_E_externals :: "(request_table, nat) Externals" where
  "scenario_E_externals = table_externals 100 (\<lambda>p. if p = 0 then 1200 else 1000)"

text \<open>
  A request for block 10 that is 40000 seconds old (made at time 1700000000, the clock
  showing 1700040000), held by peer 1 at 1.5 GB/s, while the asking peer 0 delivers 1 GB/s.
\<close>

definition stale_request_externals :: "(request_table, nat) Externals" where
  "stale_request_externals =
     table_externals 1700040000 (\<lambda>p. if p = 0 then 1000000000 else 1500000000)"

definition stale_requests :: request_table where
  "stale_requests = [(10, 1, 1700000000)]"

text \<open>
  A request for block 10 made this very second (time 1700000000) to peer 1, which
  delivers 1 byte per second, while the asking peer 0 delivers 3 GB/s.
\<close>

definition fast_peer_externals :: "(request_table, nat) Externals" where
  "fast_peer_externals = table_externals 1700000000 (\<lambda>p. if p = 0 then 3000000000 else 1)"

text \<open>
  Sequential download from piece 2 of four pieces, of which piece 1 is complete: the wanted
  pieces are 0, 2 and 3.
\<close>

definition piece_1_complete :: "(request_table, nat) Mediator" where
  "piece_1_complete =
     table_mediator 4 (\<lambda>p. p \<noteq> 1) (\<lambda>p. 4) (\<lambda>p. 0) four_blocks (\<lambda>b. True) True 2 False"

text \<open>Sequential download of two pieces, the first missing 2 blocks and the second 1.\<close>

definition sequential_unsorted :: "(request_table, nat) Mediator" where
  "sequential_unsorted =
     table_mediator 2 (\<lambda>p. True) (\<lambda>p. if p = 0 then 2 else 1) (\<lambda>p. 0) four_blocks
       (\<lambda>b. True) True 0 False"

text \<open>
  Two pieces whose reported block spans overlap: piece 0 reports the blocks \<open>0 .. 3\<close> and
  piece 1 the blocks \<open>2 .. 5\<close>.
\<close>

definition overlapping_pieces :: "(request_table, nat) Mediator" where
  "overlapping_pieces =
     table_mediator 2 (\<lambda>p. True) (\<lambda>p. 4) (\<lambda>p. 0)
       (\<lambda>p. \<lparr>span_begin = 2 * p, span_end = 2 * p + 4\<rparr>) (\<lambda>b. True) False 0 False"

subsection \<open>Auxiliary notions for the proofs\<close>

text \<open>A call that is neither a cancellation nor the start of a preemption.\<close>

definition plain_call :: "'peer MediatorCall \<Rightarrow> bool" where
  "plain_call c = (\<not> is_cancellation c \<and> \<not> is_preemption c)"

text \<open>A piece the client may request and that still misses blocks.\<close>

definition is_wanted :: "('st, 'peer) Mediator \<Rightarrow> tr_piece_index_t \<Rightarrow> bool" where
  "is_wanted M p = (clientCanRequestPiece M p \<and> countMissingBlocks M p \<noteq> 0)"

text \<open>The vector \<open>wanted_pieces\<close> after the rotation of \<open>getCandidates\<close>.\<close>

definition rotated_wanted_pieces ::
  "('st, 'peer) Mediator \<Rightarrow> (tr_piece_index_t \<times> size_t) list" where
  "rotated_wanted_pieces M =
     (if isSequentialDownload M \<and> 0 < sequentialDownloadFromPiece M
         \<and> unat (sequentialDownloadFromPiece M) < length (wanted_pieces_vector M)
      then std_rotate (unat (sequentialDownloadFromPiece M)) (wanted_pieces_vector M)
      else wanted_pieces_vector M)"

text \<open>
  What a stretch of the mining loop establishes, from the state \<open>(st, blocks, trace)\<close> to
  its result: the trace is extended by guarded calls; every block added was visited, is
  requestable and was re-read below \<open>max_peers\<close>; outside sequential mode the request
  table is untouched and no preemption or cancellation is made; and the set stays within
  the budget \<open>n_wanted_blocks\<close>.
\<close>

definition loop_post ::
  "('st, 'peer) Mediator \<Rightarrow> size_t \<Rightarrow> bool \<Rightarrow> (tr_block_index_t \<Rightarrow> bool)
    \<Rightarrow> 'st \<Rightarrow> tr_block_index_t set \<Rightarrow> 'peer MediatorCall list
    \<Rightarrow> 'st \<times> tr_block_index_t set \<times> 'peer MediatorCall list \<Rightarrow> bool" where
  "loop_post M n_wanted_blocks is_sequential visited st blocks trace res =
     (case res of (st', blocks', trace') \<Rightarrow>
        (\<exists>ext. trace' = trace @ ext \<and> calls_guarded M ext
           \<and> (\<forall>x\<in>blocks' - blocks.
                 visited x \<and> clientCanRequestBlock M x \<and> reread_below_max M x ext)
           \<and> (\<not> is_sequential \<longrightarrow>
                 st' = st \<and> (\<forall>c\<in>set ext. \<not> is_cancellation c \<and> \<not> is_preemption c)))
        \<and> blocks \<subseteq> blocks'
        \<and> (card blocks \<le> unat n_wanted_blocks \<longrightarrow> card blocks' \<le> unat n_wanted_blocks))"

text \<open>Externals in which every peer has speed 0.\<close>

definition idle_externals :: "(request_table, nat) Externals" where
  "idle_externals = table_externals 100 (\<lambda>p. 0)"

section \<open>Properties\<close>

subsection \<open>The span packer\<close>

lemma unat_inc: "(b::32 word) < n \<Longrightarrow> unat (b + 1) = Suc (unat b)"
  by unat_arith

lemma less_inc: "(b::32 word) < n \<Longrightarrow> b < b + 1"
  by unat_arith

lemma expand_span_grow:
  assumes "span_begin cur < span_end cur" "span_end cur < n"
  shows "expand_span (cur\<lparr>span_end := span_end cur + 1\<rparr>) = expand_span cur @ [span_end cur]"
proof -
  have "unat (span_end cur + 1) = Suc (unat (span_end cur))"
    using assms(2) by (rule unat_inc)
  moreover have "unat (span_begin cur) \<le> unat (span_end cur)"
    using assms(1) by (simp add: word_less_nat_alt)
  ultimately show ?thesis by (simp add: expand_span_def)
qed

lemma expand_span_single:
  assumes "b < (n::32 word)"
  shows "expand_span \<lparr>span_begin = b, span_end = b + 1\<rparr> = [b]"
  using unat_inc[OF assms] by (simp add: expand_span_def)

lemma makeSpans_loop_expand:
  assumes "sorted_wrt (<) bs" "\<forall>b\<in>set bs. span_end cur \<le> b \<and> b < n"
    and "span_begin cur < span_end cur"
  shows "expand_spans (makeSpans_loop cur bs spans) = expand_spans spans @ expand_span cur @ bs"
  using assms
proof (induction bs arbitrary: cur spans)
  case Nil
  then show ?case by (simp add: expand_spans_def)
next
  case (Cons b bs)
  have b: "span_end cur \<le> b" "b < n" using Cons.prems(2) by auto
  have srt: "sorted_wrt (<) bs" and above: "\<forall>x\<in>set bs. b < x \<and> x < n"
    using Cons.prems(1,2) by auto
  have next_le: "\<forall>x\<in>set bs. b + 1 \<le> x \<and> x < n"
    using above by (auto intro: inc_le)
  show ?case
  proof (cases "span_end cur = b")
    case True
    let ?cur = "cur\<lparr>span_end := span_end cur + 1\<rparr>"
    have "span_begin ?cur < span_end ?cur"
      using Cons.prems(3) less_inc[OF b(2)] True by simp
    moreover have "\<forall>x\<in>set bs. span_end ?cur \<le> x \<and> x < n"
      using next_le True by simp
    ultimately have "expand_spans (makeSpans_loop ?cur bs spans)
        = expand_spans spans @ expand_span ?cur @ bs"
      using Cons.IH[OF srt] by blast
    moreover have "expand_span ?cur = expand_span cur @ [b]"
      using expand_span_grow[OF Cons.prems(3)] b(2) True by simp
    ultimately show ?thesis using True by simp
  next
    case False
    let ?new = "\<lparr>span_begin = b, span_end = b + 1\<rparr>"
    have "span_begin ?new < span_end ?new" using less_inc[OF b(2)] by simp
    moreover have "\<forall>x\<in>set bs. span_end ?new \<le> x \<and> x < n" using next_le by simp
    ultimately have "expand_spans (makeSpans_loop ?new bs (spans @ [cur]))
        = expand_spans (spans @ [cur]) @ expand_span ?new @ bs"
      using Cons.IH[OF srt] by blast
    then show ?thesis using False expand_span_single[OF b(2)]
      by (simp add: expand_spans_def)
  qed
qed

lemma makeSpans_loop_ordered:
  assumes "sorted_wrt (<) bs" "\<forall>b\<in>set bs. span_end cur \<le> b \<and> b < n"
    and "span_begin cur < span_end cur"
    and "spans_ordered spans" "\<forall>s\<in>set spans. span_ok s \<and> span_end s < span_begin cur"
  shows "spans_ordered (makeSpans_loop cur bs spans)
       \<and> (\<forall>s\<in>set (makeSpans_loop cur bs spans). span_ok s)"
  using assms
proof (induction bs arbitrary: cur spans)
  case Nil
  then show ?case by (auto simp: spans_ordered_def sorted_wrt_append span_ok_def)
next
  case (Cons b bs)
  have b: "span_end cur \<le> b" "b < n" using Cons.prems(2) by auto
  have srt: "sorted_wrt (<) bs" and above: "\<forall>x\<in>set bs. b < x \<and> x < n"
    using Cons.prems(1,2) by auto
  have next_le: "\<forall>x\<in>set bs. b + 1 \<le> x \<and> x < n"
    using above by (auto intro: inc_le)
  show ?case
  proof (cases "span_end cur = b")
    case True
    let ?cur = "cur\<lparr>span_end := span_end cur + 1\<rparr>"
    have h1: "span_begin ?cur < span_end ?cur"
      using Cons.prems(3) less_inc[OF b(2)] True by simp
    have h2: "\<forall>x\<in>set bs. span_end ?cur \<le> x \<and> x < n"
      using next_le True by simp
    have h3: "\<forall>s\<in>set spans. span_ok s \<and> span_end s < span_begin ?cur"
      using Cons.prems(5) by simp
    have "makeSpans_loop cur (b # bs) spans = makeSpans_loop ?cur bs spans"
      using True by simp
    then show ?thesis
      using Cons.IH[OF srt h2 h1 Cons.prems(4) h3] by simp
  next
    case False
    let ?new = "\<lparr>span_begin = b, span_end = b + 1\<rparr>"
    have lt: "span_end cur < b" using b(1) False by simp
    have h1: "span_begin ?new < span_end ?new" using less_inc[OF b(2)] by simp
    have h2: "\<forall>x\<in>set bs. span_end ?new \<le> x \<and> x < n" using next_le by simp
    have h4: "spans_ordered (spans @ [cur])"
      using Cons.prems(4,5) by (simp add: spans_ordered_def sorted_wrt_append)
    have h5: "\<forall>s\<in>set (spans @ [cur]). span_ok s \<and> span_end s < span_begin ?new"
    proof
      fix s assume "s \<in> set (spans @ [cur])"
      then consider "s \<in> set spans" | "s = cur" by auto
      then show "span_ok s \<and> span_end s < span_begin ?new"
      proof cases
        case 1
        then have "span_ok s" "span_end s < span_begin cur" using Cons.prems(5) by auto
        then show ?thesis using Cons.prems(3) lt by (simp add: span_ok_def)
      next
        case 2
        then show ?thesis using Cons.prems(3) lt by (simp add: span_ok_def)
      qed
    qed
    have "makeSpans_loop cur (b # bs) spans = makeSpans_loop ?new bs (spans @ [cur])"
      using False by simp
    then show ?thesis
      using Cons.IH[OF srt h2 h1 h4 h5] by simp
  qed
qed

lemma makeSpans_props:
  assumes "sorted_wrt (<) bs" and "\<forall>b\<in>set bs. b < n_blocks"
  shows "expand_spans (makeSpans bs) = bs"
    and "spans_ordered (makeSpans bs)"
    and "\<forall>s\<in>set (makeSpans bs). span_ok s"
proof -
  have "expand_spans (makeSpans bs) = bs
       \<and> spans_ordered (makeSpans bs)
       \<and> (\<forall>s\<in>set (makeSpans bs). span_ok s)"
  proof (cases bs)
    case Nil
    then show ?thesis by (simp add: expand_spans_def spans_ordered_def)
  next
    case (Cons b rest)
    let ?cur = "\<lparr>span_begin = b, span_end = b + 1\<rparr>"
    have b: "b < n_blocks" using assms(2) Cons by simp
    have srt: "sorted_wrt (<) rest" and above: "\<forall>x\<in>set rest. b < x \<and> x < n_blocks"
      using assms Cons by auto
    have 1: "\<forall>x\<in>set rest. span_end ?cur \<le> x \<and> x < n_blocks"
      using above by (auto intro: inc_le)
    have 2: "span_begin ?cur < span_end ?cur" using less_inc[OF b] by simp
    have "expand_spans (makeSpans_loop ?cur rest []) = expand_spans [] @ expand_span ?cur @ rest"
      using makeSpans_loop_expand[OF srt 1 2] .
    then have "expand_spans (makeSpans bs) = bs"
      using Cons expand_span_single[OF b] by (simp add: expand_spans_def)
    moreover have "spans_ordered (makeSpans_loop ?cur rest [])
         \<and> (\<forall>s\<in>set (makeSpans_loop ?cur rest []). span_ok s)"
      using makeSpans_loop_ordered[OF srt 1 2, of "[]"] by (simp add: spans_ordered_def)
    ultimately show ?thesis using Cons by simp
  qed
  then show "expand_spans (makeSpans bs) = bs"
    and "spans_ordered (makeSpans bs)"
    and "\<forall>s\<in>set (makeSpans bs). span_ok s" by auto
qed

text \<open>
  C2: for a strictly ascending sequence of block indices (each below the block count
  \<open>n_blocks\<close> of the torrent), \<open>makeSpans\<close> returns spans that re-expand to exactly the
  input, that are in ascending order, pairwise disjoint and separated by a gap, each with
  \<open>begin < end\<close>; the empty input gives no span.
\<close>

theorem makeSpans_roundtrip:
  assumes "sorted_wrt (<) bs" and "\<forall>b\<in>set bs. b < n_blocks"
  shows "expand_spans (makeSpans bs) = bs
       \<and> spans_ordered (makeSpans bs)
       \<and> (\<forall>s\<in>set (makeSpans bs). span_ok s)
       \<and> makeSpans [] = []"
  using makeSpans_props[OF assms] by simp

theorem makeSpans_roundtrip_witness:
  "sorted_wrt (<) [0, 2, 3, 9 :: tr_block_index_t]
   \<and> list_all (\<lambda>b. b < 12) [0, 2, 3, 9 :: tr_block_index_t]
   \<and> makeSpans [0, 2, 3, 9]
       = [\<lparr>span_begin = 0, span_end = 1\<rparr>, \<lparr>span_begin = 2, span_end = 4\<rparr>,
          \<lparr>span_begin = 9, span_end = 10\<rparr>]
   \<and> expand_spans (makeSpans [0, 2, 3, 9]) = [0, 2, 3, 9]
   \<and> spans_ordered (makeSpans [0, 2, 3, 9])
   \<and> list_all span_ok (makeSpans [0, 2, 3, 9])"
  using makeSpans_roundtrip[of "[0, 2, 3, 9]" 12] by (simp add: list_all_iff)

subsection \<open>The empty request\<close>

text \<open>
  C8: for every peer, \<open>next(0, peer)\<close> returns the empty span list at once: it makes no
  call on the mediator (no enumeration, no query, no cancellation) and leaves the request
  table as it was.
\<close>

theorem next_zero_wanted:
  "Wishlist_next M X 0 peer st = ([], st, [])"
  by (simp add: Wishlist_next_def)

subsection \<open>Slow-request preemption\<close>

lemma is_slow_iff: "is_slow res \<longleftrightarrow> 2 \<le> sint res"
proof -
  have h: "(1.5 < real_of_int i) = (2 \<le> i)" for i :: int
  proof
    assume "1.5 < real_of_int i"
    then have "1 < real_of_int i" by linarith
    then have "1 < i" by linarith
    then show "2 \<le> i" by linarith
  next
    assume "2 \<le> i"
    then have "2 \<le> real_of_int i" by linarith
    then show "1.5 < real_of_int i" by linarith
  qed
  show ?thesis unfolding is_slow_def by (rule h)
qed

lemma cancelSlowRequest_loop_find:
  "cancelSlowRequest_loop X now peer_speed block peers st =
     (case find (\<lambda>(current_peer, when).
                   get_piece_speed_bytes_per_second X current_peer now \<noteq> 0
                   \<and> is_slow (slow_request_res peer_speed
                         (get_piece_speed_bytes_per_second X current_peer now) now when)) peers of
        None \<Rightarrow> (st, [])
      | Some (current_peer, when) \<Rightarrow>
          (tr_cancelRequestForBlock X current_peer block st,
           [CancelRequestForBlock current_peer block]))"
proof (induction peers)
  case Nil
  show ?case by simp
next
  case (Cons pw peers)
  obtain current_peer "when" where pw: "pw = (current_peer, when)" by (cases pw)
  show ?case unfolding pw using Cons.IH by simp
qed

text \<open>
  The control flow of \<open>cancelSlowRequest\<close>, with the score as the code computes it
  (64-bit wrapping arithmetic, narrowed to \<open>int\<close>): if the asking peer's speed is 0
  nothing is cancelled and the request table is unchanged. Otherwise the active requests
  are walked in order, those whose peer has speed 0 are skipped, and the first request for
  which \<open>res > 1.5\<close> is cancelled, after which the routine returns. At most one
  cancellation is made.
\<close>

lemma cancelSlowRequest_find:
  "cancelSlowRequest M X st block peer =
     (let now = tr_time X;
          v_new = get_piece_speed_bytes_per_second X peer now;
          active = getPeersForActiveRequests M st block
      in case (if v_new = 0 then None
               else find (\<lambda>(P_cur, t).
                      get_piece_speed_bytes_per_second X P_cur now \<noteq> 0
                      \<and> 1.5 < real_of_int (sint (ucast
                            (v_new div get_piece_speed_bytes_per_second X P_cur now
                               - ((now - t) * v_new) div BlockSize) :: 32 word))) active) of
           None \<Rightarrow> (st, [GetPeersForActiveRequests block active])
         | Some (P_cur, t) \<Rightarrow>
             (tr_cancelRequestForBlock X P_cur block st,
              [GetPeersForActiveRequests block active, CancelRequestForBlock P_cur block]))
   \<and> length (filter is_cancellation (snd (cancelSlowRequest M X st block peer))) \<le> 1"
  by (auto simp: cancelSlowRequest_def cancelSlowRequest_loop_find Let_def is_slow_def
        slow_request_res_def split: option.splits)

text \<open>Scenarios D and E of the spec: the faster peer preempts, the marginal one does not.\<close>

lemma cancelSlowRequest_scenarios:
  "cancelSlowRequest scenario_D scenario_D_externals scenario_D_requests 10 0
     = ([], [GetPeersForActiveRequests 10 [(1, 99)], CancelRequestForBlock 1 10])
   \<and> cancelSlowRequest scenario_D scenario_E_externals scenario_D_requests 10 0
     = (scenario_D_requests, [GetPeersForActiveRequests 10 [(1, 99)]])"
  using cancelSlowRequest_find[of scenario_D scenario_D_externals scenario_D_requests 10 0]
    cancelSlowRequest_find[of scenario_D scenario_E_externals scenario_D_requests 10 0]
  by (simp add: scenario_D_def scenario_D_externals_def scenario_E_externals_def
        scenario_D_requests_def table_mediator_def table_externals_def BlockSize_def Let_def)

text \<open>
  C4: the first active request whose score \<open>r = v_new / v_cur - ((now - t) * v_new) / BS\<close>
  exceeds 1.5 is to be cancelled. The code narrows the score to a 32-bit \<open>int\<close> before
  the comparison, so it does not: with \<open>v_new = 3 * 10^9\<close>, \<open>v_cur = 1\<close> and a request
  made this second, the score is \<open>3 * 10^9\<close>, the \<open>int\<close> holds -1294967296, and nothing
  is cancelled.
\<close>

theorem fast_peer_does_not_preempt:
  "get_piece_speed_bytes_per_second fast_peer_externals 0 (tr_time fast_peer_externals)
     = 3000000000
   \<and> tr_time fast_peer_externals = 1700000000
   \<and> getPeersForActiveRequests scenario_D stale_requests 10 = [(1, 1700000000)]
   \<and> get_piece_speed_bytes_per_second fast_peer_externals 1 (tr_time fast_peer_externals) = 1
   \<and> score_as_specified 3000000000 1 1700000000 1700000000 = 3000000000
   \<and> sint (slow_request_res 3000000000 1 1700000000 1700000000) = - 1294967296
   \<and> cancelSlowRequest scenario_D fast_peer_externals stale_requests 10 0
     = (stale_requests, [GetPeersForActiveRequests 10 [(1, 1700000000)]])"
  by (simp add: cancelSlowRequest_def scenario_D_def fast_peer_externals_def
        stale_requests_def table_mediator_def table_externals_def BlockSize_def Let_def
        is_slow_iff slow_request_res_def score_as_specified_def)

text \<open>
  Where the narrowing to \<open>int\<close> does no harm: as long as the discount term is at most
  \<open>2^31\<close>, a score above 1.5 needs a new peer at least twice as fast as the current one.
\<close>

lemma sint_narrow:
  fixes w :: "64 word"
  shows "sint (ucast w :: 32 word) = signed_take_bit 31 (uint w)"
  by (simp add: sint_uint unsigned_ucast_eq signed_take_bit_take_bit)

lemma stb_diff:
  fixes q d :: "64 word"
  shows "signed_take_bit (31::nat) (uint (q - d)) = signed_take_bit 31 (uint q - uint d)"
  by (simp only: uint_word_arith_bintrs signed_take_bit_take_bit) simp

lemma slow_request_res_int:
  "sint (slow_request_res v_new v_cur now t)
     = signed_take_bit 31 (uint (v_new div v_cur) - uint (((now - t) * v_new) div BlockSize))"
  unfolding slow_request_res_def sint_narrow stb_diff ..


lemma quotient_below_two:
  fixes a b :: nat
  assumes "a < 2 * b"
  shows "a div b \<le> 1"
proof (cases "b = 0")
  case True
  then show ?thesis by simp
next
  case False
  then have "a div b < 2" using assms by (simp add: less_mult_imp_div_less mult.commute)
  then show ?thesis by simp
qed

lemma is_slow_needs_double_speed:
  assumes slow: "is_slow (slow_request_res v_new v_cur now t)"
    and small: "uint (((now - t) * v_new) div BlockSize) \<le> 2147483648"
  shows "2 * unat v_cur \<le> unat v_new"
proof (rule ccontr)
  assume "\<not> 2 * unat v_cur \<le> unat v_new"
  then have lt: "unat v_new < 2 * unat v_cur" by simp
  let ?q = "v_new div v_cur" and ?d = "((now - t) * v_new) div BlockSize"
  have "unat ?q = unat v_new div unat v_cur" by (rule unat_div)
  then have "unat ?q \<le> 1" using quotient_below_two[OF lt] by simp
  then have q: "uint ?q \<le> 1" by (simp only: uint_nat)
  have d0: "0 \<le> uint ?d" and q0: "0 \<le> uint ?q" by simp_all
  have lo: "- 2147483648 \<le> uint ?q - uint ?d" using small q0 by linarith
  have hi: "uint ?q - uint ?d < 2147483648" using q d0 by linarith
  have "signed_take_bit 31 (uint ?q - uint ?d) = uint ?q - uint ?d"
    using lo hi by (intro signed_take_bit_int_eq_self) simp_all
  then have "sint (slow_request_res v_new v_cur now t) = uint ?q - uint ?d"
    by (simp only: slow_request_res_int)
  then have "sint (slow_request_res v_new v_cur now t) \<le> 1"
    using q d0 by linarith
  then show False using slow by (simp only: is_slow_iff)
qed

text \<open>
  C9: \<open>res > 1.5\<close> is \<open>res \<ge> 2\<close> on the \<open>int\<close> (\<open>is_slow_iff\<close>), and a cancellation
  is meant to happen only when the asking peer is at least twice as fast as the peer
  holding the request. But the 64-bit score is narrowed to a 32-bit \<open>int\<close>, so a discount
  term above \<open>2^31\<close> wraps around to a positive value: with \<open>v_new = 10^9\<close>,
  \<open>v_cur = 1.5 * 10^9\<close> and a request that is 40000 seconds old, the quotient is 0, the
  discount is 2441406250, and the \<open>int\<close> holds 1853561046; the request is cancelled in
  favour of the slower peer.
\<close>

theorem stale_request_cancelled_for_slower_peer:
  "get_piece_speed_bytes_per_second stale_request_externals 0 (tr_time stale_request_externals)
     = 1000000000
   \<and> tr_time stale_request_externals = 1700040000
   \<and> getPeersForActiveRequests scenario_D stale_requests 10 = [(1, 1700000000)]
   \<and> get_piece_speed_bytes_per_second stale_request_externals 1 (tr_time stale_request_externals)
     = 1500000000
   \<and> sint (slow_request_res 1000000000 1500000000 1700040000 1700000000) = 1853561046
   \<and> cancelSlowRequest scenario_D stale_request_externals stale_requests 10 0
     = ([], [GetPeersForActiveRequests 10 [(1, 1700000000)], CancelRequestForBlock 1 10])"
  by (simp add: cancelSlowRequest_def scenario_D_def stale_request_externals_def
        stale_requests_def table_mediator_def table_externals_def BlockSize_def Let_def
        is_slow_iff slow_request_res_def)

subsection \<open>Traces of guarded calls\<close>

declare blocks_loop.simps [simp del]
declare wanted_pieces_loop.simps [simp del]

lemma call_guarded_extend: "call_guarded M pre c \<Longrightarrow> call_guarded M (xs @ pre) c"
  by (cases c) auto

lemma calls_guarded_Nil: "calls_guarded M []"
  by (simp add: calls_guarded_def)

lemma calls_guarded_append:
  assumes "calls_guarded M xs" "calls_guarded M ys"
  shows "calls_guarded M (xs @ ys)"
  unfolding calls_guarded_def
proof (intro allI impI)
  fix pre c post
  assume eq: "xs @ ys = pre @ c # post"
  then consider (left) us where "xs = pre @ c # us"
    | (right) us where "pre = xs @ us" "ys = us @ c # post"
    by (auto simp: append_eq_append_conv2 append_eq_Cons_conv Cons_eq_append_conv)
  then show "call_guarded M pre c"
  proof cases
    case left
    then show ?thesis using assms(1) by (auto simp: calls_guarded_def)
  next
    case right
    then have "call_guarded M us c" using assms(2) by (auto simp: calls_guarded_def)
    then show ?thesis using right(1) call_guarded_extend by blast
  qed
qed

lemma calls_guarded_plain:
  assumes "\<forall>c\<in>set xs. \<not> is_cancellation c \<and> \<not> is_preemption c"
  shows "calls_guarded M xs"
  unfolding calls_guarded_def
proof (intro allI impI)
  fix pre c post
  assume "xs = pre @ c # post"
  then have "c \<in> set xs" by simp
  then have "\<not> is_cancellation c \<and> \<not> is_preemption c" using assms by blast
  then show "call_guarded M pre c" by (cases c) auto
qed

lemma reread_below_max_extend:
  "reread_below_max M b ys \<Longrightarrow> reread_below_max M b (xs @ ys @ zs)"
  unfolding reread_below_max_def
proof -
  assume "\<exists>pre k post. ys = pre @ [CountActiveRequests b k, IsEndgame (isEndgame M)] @ post
        \<and> k < (if isEndgame M then 2 else 1)"
  then obtain pre k post where
    "ys = pre @ [CountActiveRequests b k, IsEndgame (isEndgame M)] @ post"
    "k < (if isEndgame M then 2 else 1)" by blast
  then have "xs @ ys @ zs = (xs @ pre) @ [CountActiveRequests b k, IsEndgame (isEndgame M)] @ (post @ zs)
        \<and> k < (if isEndgame M then 2 else 1)" by simp
  then show "\<exists>pre k post. xs @ ys @ zs = pre @ [CountActiveRequests b k, IsEndgame (isEndgame M)] @ post
        \<and> k < (if isEndgame M then 2 else 1)" by blast
qed

lemma cancelSlowRequest_loop_trace:
  "snd (cancelSlowRequest_loop X now v block peers st) = []
   \<or> (\<exists>p. snd (cancelSlowRequest_loop X now v block peers st) = [CancelRequestForBlock p block])"
  by (simp add: cancelSlowRequest_loop_find split: option.splits prod.splits)

lemma cancelSlowRequest_trace:
  "\<exists>peers. snd (cancelSlowRequest M X st block peer) = [GetPeersForActiveRequests block peers]
      \<or> (\<exists>p. snd (cancelSlowRequest M X st block peer)
             = [GetPeersForActiveRequests block peers, CancelRequestForBlock p block])"
  using cancelSlowRequest_loop_trace[of X "tr_time X"
      "get_piece_speed_bytes_per_second X peer (tr_time X)" block
      "getPeersForActiveRequests M st block" st]
  by (auto simp: cancelSlowRequest_def Let_def split: prod.splits)

lemma preempt_trace:
  "snd (preempt M X peer is_sequential block st) = []
   \<or> (\<exists>k. snd (preempt M X peer is_sequential block st) = [CountActiveRequests block k])
   \<or> (\<exists>k peers. 0 < k \<and> is_sequential \<and> (snd (preempt M X peer is_sequential block st)
            = [CountActiveRequests block k, GetPeersForActiveRequests block peers]
         \<or> (\<exists>p. snd (preempt M X peer is_sequential block st)
            = [CountActiveRequests block k, GetPeersForActiveRequests block peers,
               CancelRequestForBlock p block])))"
  using cancelSlowRequest_trace[of M X st block peer]
  by (auto simp: preempt_def split: prod.splits)

lemma preempt_not_sequential:
  "preempt M X peer False block st = (st, [])"
  by (simp add: preempt_def)

lemma visit_block_guarded:
  assumes "is_sequential \<longrightarrow> isSequentialDownload M"
  shows "calls_guarded M (snd (snd (visit_block M X peer is_sequential block st)))"
proof (cases "clientCanRequestBlock M block")
  case False
  then show ?thesis by (auto intro!: calls_guarded_plain simp: visit_block_def)
next
  case True
  obtain st' tr where p: "preempt M X peer is_sequential block st = (st', tr)"
    by (cases "preempt M X peer is_sequential block st")
  let ?tail = "[CountActiveRequests block (countActiveRequests M st' block), IsEndgame (isEndgame M)]"
  have v: "snd (snd (visit_block M X peer is_sequential block st))
      = ClientCanRequestBlock block True # tr @ ?tail"
    using True p by (simp add: visit_block_def Let_def)
  have "calls_guarded M (ClientCanRequestBlock block True # tr)"
    using preempt_trace[of M X peer is_sequential block st] p True assms
    by (auto simp: calls_guarded_def Cons_eq_append_conv append_eq_Cons_conv)
  moreover have "calls_guarded M ?tail" by (auto intro!: calls_guarded_plain)
  ultimately have "calls_guarded M ((ClientCanRequestBlock block True # tr) @ ?tail)"
    by (rule calls_guarded_append)
  then show ?thesis using v by simp
qed

lemma visit_block_selected:
  assumes "visit_block M X peer is_sequential block st = (st', True, calls)"
  shows "clientCanRequestBlock M block \<and> reread_below_max M block calls"
proof -
  have can: "clientCanRequestBlock M block"
    using assms by (auto simp: visit_block_def split: if_splits)
  obtain st1 tr where p: "preempt M X peer is_sequential block st = (st1, tr)"
    by (cases "preempt M X peer is_sequential block st")
  let ?k = "countActiveRequests M st1 block"
  have calls: "calls = (ClientCanRequestBlock block True # tr)
        @ [CountActiveRequests block ?k, IsEndgame (isEndgame M)] @ []"
    and k: "\<not> (if isEndgame M then 2 else 1) \<le> ?k"
    using assms can p by (auto simp: visit_block_def Let_def)
  have "?k < (if isEndgame M then 2 else 1)" using k by (simp add: not_le)
  then show ?thesis using can calls unfolding reread_below_max_def by blast
qed

lemma visit_block_not_sequential:
  "fst (visit_block M X peer False block st) = st
   \<and> (\<forall>c\<in>set (snd (snd (visit_block M X peer False block st))).
         \<not> is_cancellation c \<and> \<not> is_preemption c)"
  by (simp add: visit_block_def preempt_not_sequential Let_def)

lemma loop_post_refl:
  "loop_post M n is_sequential visited st blocks trace (st, blocks, trace)"
  by (simp add: loop_post_def calls_guarded_Nil)

lemma loop_post_trans:
  assumes 1: "loop_post M n is_sequential visited st blocks trace (st1, blocks1, trace1)"
    and 2: "loop_post M n is_sequential visited st1 blocks1 trace1 res"
  shows "loop_post M n is_sequential visited st blocks trace res"
proof -
  obtain st2 blocks2 trace2 where res: "res = (st2, blocks2, trace2)" by (cases res)
  from 1 obtain e1 where e1: "trace1 = trace @ e1" "calls_guarded M e1"
      "\<forall>x\<in>blocks1 - blocks. visited x \<and> clientCanRequestBlock M x \<and> reread_below_max M x e1"
      "\<not> is_sequential \<longrightarrow> st1 = st \<and> (\<forall>c\<in>set e1. \<not> is_cancellation c \<and> \<not> is_preemption c)"
    and s1: "blocks \<subseteq> blocks1" "card blocks \<le> unat n \<longrightarrow> card blocks1 \<le> unat n"
    unfolding loop_post_def by auto
  from 2 res obtain e2 where e2: "trace2 = trace1 @ e2" "calls_guarded M e2"
      "\<forall>x\<in>blocks2 - blocks1. visited x \<and> clientCanRequestBlock M x \<and> reread_below_max M x e2"
      "\<not> is_sequential \<longrightarrow> st2 = st1 \<and> (\<forall>c\<in>set e2. \<not> is_cancellation c \<and> \<not> is_preemption c)"
    and s2: "blocks1 \<subseteq> blocks2" "card blocks1 \<le> unat n \<longrightarrow> card blocks2 \<le> unat n"
    unfolding loop_post_def by auto
  have a: "trace2 = trace @ (e1 @ e2)" using e1(1) e2(1) by simp
  have b: "calls_guarded M (e1 @ e2)" using e1(2) e2(2) by (rule calls_guarded_append)
  have c: "\<forall>x\<in>blocks2 - blocks.
            visited x \<and> clientCanRequestBlock M x \<and> reread_below_max M x (e1 @ e2)"
  proof
    fix x assume x: "x \<in> blocks2 - blocks"
    show "visited x \<and> clientCanRequestBlock M x \<and> reread_below_max M x (e1 @ e2)"
    proof (cases "x \<in> blocks1")
      case True
      then have "visited x \<and> clientCanRequestBlock M x \<and> reread_below_max M x e1"
        using x e1(3) by blast
      then show ?thesis using reread_below_max_extend[of M x e1 "[]" e2] by simp
    next
      case False
      then have "visited x \<and> clientCanRequestBlock M x \<and> reread_below_max M x e2"
        using x e2(3) by blast
      then show ?thesis using reread_below_max_extend[of M x e2 e1 "[]"] by simp
    qed
  qed
  have d: "\<not> is_sequential \<longrightarrow>
            st2 = st \<and> (\<forall>c\<in>set (e1 @ e2). \<not> is_cancellation c \<and> \<not> is_preemption c)"
    using e1(4) e2(4) by auto
  have e: "blocks \<subseteq> blocks2" using s1(1) s2(1) by blast
  have f: "card blocks \<le> unat n \<longrightarrow> card blocks2 \<le> unat n" using s1(2) s2(2) by blast
  show ?thesis unfolding loop_post_def res using a b c d e f by auto
qed

lemma loop_post_weaken:
  assumes "loop_post M n is_sequential visited st blocks trace res"
    and "\<And>x. visited x \<Longrightarrow> visited' x"
  shows "loop_post M n is_sequential visited' st blocks trace res"
  using assms unfolding loop_post_def by (cases res) fastforce

lemma visit_block_post:
  assumes seq: "is_sequential \<longrightarrow> isSequentialDownload M"
    and v: "visit_block M X peer is_sequential block st = (st', selected, calls)"
    and room: "card blocks < unat n"
  shows "loop_post M n is_sequential (\<lambda>x. x = block) st blocks trace
           (st', (if selected then insert block blocks else blocks), trace @ calls)"
proof -
  have g: "calls_guarded M calls" using visit_block_guarded[OF seq, of X peer block st] v by simp
  have sel: "selected \<Longrightarrow> clientCanRequestBlock M block \<and> reread_below_max M block calls"
    using visit_block_selected[of M X peer is_sequential block st st' calls] v by simp
  have ns: "\<not> is_sequential \<longrightarrow>
              st' = st \<and> (\<forall>c\<in>set calls. \<not> is_cancellation c \<and> \<not> is_preemption c)"
    using visit_block_not_sequential[of M X peer block st] v by auto
  have card: "card (insert block blocks) \<le> unat n"
    using room by (metis Suc_leI card_insert_if finite nat_less_le order_less_imp_le)
  show ?thesis unfolding loop_post_def using g sel ns card by auto
qed

lemma blocks_loop_post:
  assumes "is_sequential \<longrightarrow> isSequentialDownload M"
  shows "loop_post M n is_sequential (\<lambda>x. block \<le> x \<and> x < end_block) st blocks trace
           (blocks_loop M X peer n is_sequential end_block block st blocks trace)"
  using assms
proof (induction M X peer n is_sequential end_block block st blocks trace
        rule: blocks_loop.induct)
  case (1 M X peer n is_sequential end_block block st blocks trace)
  show ?case
  proof (cases "block < end_block \<and> card blocks < unat n")
    case False
    then have "blocks_loop M X peer n is_sequential end_block block st blocks trace
        = (st, blocks, trace)"
      by (auto simp: blocks_loop.simps[of M X peer n is_sequential end_block block])
    then show ?thesis by (simp add: loop_post_refl)
  next
    case True
    obtain st' selected calls where
      v: "visit_block M X peer is_sequential block st = (st', selected, calls)"
      by (cases "visit_block M X peer is_sequential block st")
    let ?blocks = "if selected then insert block blocks else blocks"
    have step: "loop_post M n is_sequential (\<lambda>x. block \<le> x \<and> x < end_block) st blocks trace
                  (st', ?blocks, trace @ calls)"
      using visit_block_post[OF "1.prems" v, of blocks n trace] True
      by (auto intro: loop_post_weaken)
    have "loop_post M n is_sequential (\<lambda>x. block + 1 \<le> x \<and> x < end_block) st' ?blocks
            (trace @ calls)
            (blocks_loop M X peer n is_sequential end_block (block + 1) st' ?blocks
               (trace @ calls))"
      using "1.IH"[OF True v[symmetric] refl "1.prems"] .
    moreover have "block \<le> x" if "block + 1 \<le> x" for x
      using that True less_inc[of block end_block] by auto
    ultimately have rest: "loop_post M n is_sequential (\<lambda>x. block \<le> x \<and> x < end_block) st'
            ?blocks (trace @ calls)
            (blocks_loop M X peer n is_sequential end_block (block + 1) st' ?blocks
               (trace @ calls))"
      by (auto intro: loop_post_weaken)
    have "blocks_loop M X peer n is_sequential end_block block st blocks trace
        = blocks_loop M X peer n is_sequential end_block (block + 1) st' ?blocks (trace @ calls)"
      using True v by (simp add: blocks_loop.simps[of M X peer n is_sequential end_block block])
    then show ?thesis using loop_post_trans[OF step rest] by simp
  qed
qed

subsection \<open>Candidate enumeration\<close>

lemma wanted_pieces_loop_fst:
  "fst (wanted_pieces_loop M n i w tr)
     = w @ map (\<lambda>p. (p, countMissingBlocks M p))
             (filter (is_wanted M) (map of_nat [unat i..<unat n]))"
proof (induction M n i w tr rule: wanted_pieces_loop.induct)
  case (1 M n i w tr)
  show ?case
  proof (cases "i < n")
    case False
    then have "unat n \<le> unat i" by (simp add: word_less_nat_alt)
    then show ?thesis using False
      by (simp add: wanted_pieces_loop.simps[of M n i])
  next
    case True
    then have lt: "unat i < unat n" by (simp add: word_less_nat_alt)
    have upt: "map of_nat [unat i..<unat n] = i # map of_nat [unat (i + 1)..<unat n]"
      using lt unat_inc[OF True] by (simp add: upt_conv_Cons)
    show ?thesis
      using True "1.IH" 
      by (simp add: wanted_pieces_loop.simps[of M n i] upt is_wanted_def)
  qed
qed

lemma wanted_pieces_loop_snd:
  "\<exists>ext. snd (wanted_pieces_loop M n i w tr) = tr @ ext \<and> (\<forall>c\<in>set ext. plain_call c)"
proof (induction M n i w tr rule: wanted_pieces_loop.induct)
  case (1 M n i w tr)
  show ?case
  proof (cases "i < n")
    case False
    then show ?thesis by (simp add: wanted_pieces_loop.simps[of M n i])
  next
    case True
    show ?thesis
      using True "1.IH"
      by (auto simp: wanted_pieces_loop.simps[of M n i] plain_call_def)
  qed
qed

lemma wanted_pieces_vector_eq:
  "wanted_pieces_vector M
     = map (\<lambda>p. (p, countMissingBlocks M p))
         (filter (is_wanted M) (map of_nat [0..<unat (countAllPieces M)]))"
  using wanted_pieces_loop_fst[of M "countAllPieces M" 0 "[]"]
  by (simp add: wanted_pieces_vector_def)

lemma of_nat_less_word:
  assumes "k < unat (n :: 32 word)"
  shows "(of_nat k :: 32 word) < n"
proof -
  have "unat (of_nat k :: 32 word) = k" using assms le_unat_uoi[of k n] by simp
  then show ?thesis using assms by (simp add: word_less_nat_alt)
qed

lemma wanted_pieces_vector_wanted:
  assumes "(p, m) \<in> set (wanted_pieces_vector M)"
  shows "p < countAllPieces M \<and> clientCanRequestPiece M p \<and> countMissingBlocks M p \<noteq> 0
         \<and> m = countMissingBlocks M p"
  using assms by (auto simp: wanted_pieces_vector_eq is_wanted_def of_nat_less_word)

lemma candidates_loop_pieces:
  "map (\<lambda>c. (piece c, n_blocks_missing c)) (fst (candidates_loop M s is_seq k ws)) = ws"
proof (induction ws arbitrary: k)
  case Nil
  show ?case by simp
next
  case (Cons w ws)
  obtain p m where w: "w = (p, m)" by (cases w)
  obtain cs tr where r: "candidates_loop M s is_seq (if is_seq then k else Suc k) ws = (cs, tr)"
    by (cases "candidates_loop M s is_seq (if is_seq then k else Suc k) ws")
  have "map (\<lambda>c. (piece c, n_blocks_missing c)) cs = ws"
    using Cons.IH[of "if is_seq then k else Suc k"] r by simp
  then show ?case using w r by simp
qed

lemma candidates_loop_plain:
  "\<forall>c\<in>set (snd (candidates_loop M s is_seq k ws)). plain_call c"
proof (induction ws arbitrary: k)
  case Nil
  show ?case by simp
next
  case (Cons w ws)
  obtain p m where w: "w = (p, m)" by (cases w)
  obtain cs tr where r: "candidates_loop M s is_seq (if is_seq then k else Suc k) ws = (cs, tr)"
    by (cases "candidates_loop M s is_seq (if is_seq then k else Suc k) ws")
  have "\<forall>c\<in>set tr. plain_call c"
    using Cons.IH[of "if is_seq then k else Suc k"] r by simp
  then show ?case using w r by (simp add: plain_call_def)
qed

lemma getCandidates_unfold:
  assumes "wanted_pieces_loop M (countAllPieces M) 0 [] [CountAllPieces (countAllPieces M)]
             = (W, tr1)"
    and "candidates_loop M s (isSequentialDownload M) 0 (rotated_wanted_pieces M) = (cs, tr2)"
  shows "W = wanted_pieces_vector M"
    and "getCandidates M s =
      (cs, tr1 @ [IsSequentialDownload (isSequentialDownload M),
                  SequentialDownloadFromPiece (sequentialDownloadFromPiece M)] @ tr2)"
proof -
  show W: "W = wanted_pieces_vector M" using assms(1) by (simp add: wanted_pieces_vector_def)
  show "getCandidates M s =
      (cs, tr1 @ [IsSequentialDownload (isSequentialDownload M),
                  SequentialDownloadFromPiece (sequentialDownloadFromPiece M)] @ tr2)"
    using assms W unfolding getCandidates_def rotated_wanted_pieces_def Let_def
    by (simp split: if_splits)
qed

lemma getCandidates_pieces:
  "map (\<lambda>c. (piece c, n_blocks_missing c)) (fst (getCandidates M s)) = rotated_wanted_pieces M"
proof -
  obtain W tr1 where 1: "wanted_pieces_loop M (countAllPieces M) 0 []
      [CountAllPieces (countAllPieces M)] = (W, tr1)"
    by (cases "wanted_pieces_loop M (countAllPieces M) 0 [] [CountAllPieces (countAllPieces M)]")
  obtain cs tr2 where 2:
    "candidates_loop M s (isSequentialDownload M) 0 (rotated_wanted_pieces M) = (cs, tr2)"
    by (cases "candidates_loop M s (isSequentialDownload M) 0 (rotated_wanted_pieces M)")
  show ?thesis
    using getCandidates_unfold(2)[OF 1 2]
      candidates_loop_pieces[of M s "isSequentialDownload M" 0 "rotated_wanted_pieces M"] 2
    by simp
qed

lemma getCandidates_plain:
  "\<forall>c\<in>set (snd (getCandidates M s)). plain_call c"
proof -
  obtain W tr1 where 1: "wanted_pieces_loop M (countAllPieces M) 0 []
      [CountAllPieces (countAllPieces M)] = (W, tr1)"
    by (cases "wanted_pieces_loop M (countAllPieces M) 0 [] [CountAllPieces (countAllPieces M)]")
  obtain cs tr2 where 2:
    "candidates_loop M s (isSequentialDownload M) 0 (rotated_wanted_pieces M) = (cs, tr2)"
    by (cases "candidates_loop M s (isSequentialDownload M) 0 (rotated_wanted_pieces M)")
  obtain ext where "tr1 = [CountAllPieces (countAllPieces M)] @ ext" "\<forall>c\<in>set ext. plain_call c"
    using wanted_pieces_loop_snd[of M "countAllPieces M" 0 "[]"
        "[CountAllPieces (countAllPieces M)]"] 1 by auto
  then have "\<forall>c\<in>set tr1. plain_call c" by (auto simp: plain_call_def)
  moreover have "\<forall>c\<in>set tr2. plain_call c"
    using candidates_loop_plain[of M s "isSequentialDownload M" 0 "rotated_wanted_pieces M"] 2
    by simp
  ultimately show ?thesis using getCandidates_unfold(2)[OF 1 2]
    by (auto simp: plain_call_def)
qed

lemma set_std_rotate: "set (std_rotate k xs) = set xs"
  unfolding std_rotate_def using set_append[of "drop k xs" "take k xs"] 
  by (metis Un_commute append_take_drop_id set_append)

lemma getCandidates_wanted:
  assumes "c \<in> set (fst (getCandidates M s))"
  shows "piece c < countAllPieces M \<and> clientCanRequestPiece M (piece c)
         \<and> countMissingBlocks M (piece c) \<noteq> 0"
proof -
  have "(piece c, n_blocks_missing c) \<in> set (rotated_wanted_pieces M)"
    using assms getCandidates_pieces[of M s] by (metis (mono_tags, lifting) image_eqI set_map)
  then have "(piece c, n_blocks_missing c) \<in> set (wanted_pieces_vector M)"
    by (auto simp: rotated_wanted_pieces_def set_std_rotate split: if_splits)
  then show ?thesis using wanted_pieces_vector_wanted by blast
qed

subsection \<open>The candidate order and the mining loop\<close>

lemma Candidate_less_iff:
  "Candidate_less a b \<longleftrightarrow>
     (n_blocks_missing a < n_blocks_missing b
      \<or> (n_blocks_missing a = n_blocks_missing b
          \<and> (sint (priority b) < sint (priority a)
              \<or> (priority a = priority b \<and> salt a < salt b))))"
proof -
  have "sint (priority b) < sint (priority a)" if "priority a = priority b" "False"
    using that by simp
  have neq: "sint (priority b) \<noteq> sint (priority a)" if "priority a \<noteq> priority b"
    using that by (metis signed_word_eqI)
  show ?thesis
    unfolding Candidate_less_def compare_def using neq by (auto simp: not_less)
qed

lemma Candidate_less_key: "Candidate_less a b \<longleftrightarrow> Candidate_key a < Candidate_key b"
proof -
  have 1: "unat (n_blocks_missing a) = unat (n_blocks_missing b)
      \<longleftrightarrow> n_blocks_missing a = n_blocks_missing b"
    by (metis unsigned_word_eqI)
  have 2: "sint (priority a) = sint (priority b) \<longleftrightarrow> priority a = priority b"
    by (metis signed_word_eqI)
  have 3: "sint (priority b) = sint (priority a) \<longleftrightarrow> priority a = priority b"
    using 2 by auto
  show ?thesis
    unfolding Candidate_less_iff Candidate_key_def
    by (auto simp: word_less_nat_alt 1 2 3)
qed

lemma not_Candidate_less_key: "\<not> Candidate_less b a \<longleftrightarrow> Candidate_key a \<le> Candidate_key b"
  by (simp add: Candidate_less_key not_less)

lemma sort_all_contract: "partial_sort_contract sort_all"
  unfolding partial_sort_contract_def
proof (intro allI impI)
  fix middle :: nat and xs :: "Candidate list"
  let ?ys = "sort_key Candidate_key xs"
  have srt: "sorted_wrt (\<lambda>a b. \<not> Candidate_less b a) ?ys"
    using sorted_sort_key[of Candidate_key xs]
    by (simp add: sorted_map not_Candidate_less_key)
  have "sorted_wrt (\<lambda>a b. \<not> Candidate_less b a) (take middle ?ys @ drop middle ?ys)"
    using srt by simp
  then have "sorted_wrt (\<lambda>a b. \<not> Candidate_less b a) (take middle ?ys)"
    and "\<forall>a\<in>set (take middle ?ys). \<forall>b\<in>set (drop middle ?ys). \<not> Candidate_less b a"
    unfolding sorted_wrt_append by auto
  then show "partial_sort_post middle xs (sort_all middle xs)"
    by (simp add: partial_sort_post_def sort_all_def)
qed

lemma ordered_candidates_fst:
  "fst (ordered_candidates M X) =
     (if \<not> isSequentialDownload M
      then partial_sort X (min (length (fst (getCandidates M (salter X)))) MaxSortedPieces)
             (fst (getCandidates M (salter X)))
      else fst (getCandidates M (salter X)))"
  by (simp add: ordered_candidates_def Let_def split: prod.splits)

lemma ordered_candidates_snd:
  "snd (ordered_candidates M X) =
     snd (getCandidates M (salter X)) @ [IsSequentialDownload (isSequentialDownload M)]"
  by (simp add: ordered_candidates_def Let_def split: prod.splits)

lemma ordered_candidates_post:
  assumes "partial_sort_contract (partial_sort X)" "\<not> isSequentialDownload M"
  shows "partial_sort_post (min (length (fst (getCandidates M (salter X)))) MaxSortedPieces)
           (fst (getCandidates M (salter X))) (fst (ordered_candidates M X))"
  using assms by (simp add: ordered_candidates_fst partial_sort_contract_def)

lemma ordered_candidates_set:
  assumes "isSequentialDownload M \<or> partial_sort_contract (partial_sort X)"
  shows "set (fst (ordered_candidates M X)) = set (fst (getCandidates M (salter X)))"
proof (cases "isSequentialDownload M")
  case True
  then show ?thesis by (simp add: ordered_candidates_fst)
next
  case False
  then have "mset (fst (ordered_candidates M X)) = mset (fst (getCandidates M (salter X)))"
    using ordered_candidates_post[of X M] assms by (simp add: partial_sort_post_def)
  then show ?thesis by (rule mset_eq_setD)
qed

lemma ordered_candidates_plain:
  "\<forall>c\<in>set (snd (ordered_candidates M X)). plain_call c"
  using getCandidates_plain[of M "salter X"]
  by (auto simp: ordered_candidates_snd plain_call_def)

lemma loop_post_plain_call:
  assumes "plain_call c"
  shows "loop_post M n is_sequential visited st blocks trace (st, blocks, trace @ [c])"
  unfolding loop_post_def using assms
  by (auto simp: plain_call_def intro!: calls_guarded_plain)

lemma candidates_mining_loop_post:
  assumes "is_sequential \<longrightarrow> isSequentialDownload M"
  shows "loop_post M n is_sequential
           (\<lambda>x. \<exists>c\<in>set candidates. span_contains (blockSpan M (piece c)) x) st blocks trace
           (candidates_mining_loop M X peer n is_sequential candidates st blocks trace)"
proof (induction candidates arbitrary: st blocks trace)
  case Nil
  show ?case by (simp add: loop_post_refl)
next
  case (Cons c cs)
  let ?visited = "\<lambda>x. \<exists>c\<in>set (c # cs). span_contains (blockSpan M (piece c)) x"
  show ?case
  proof (cases "unat n \<le> card blocks")
    case True
    then show ?thesis by (simp add: loop_post_refl)
  next
    case False
    let ?span = "blockSpan M (piece c)"
    let ?trace = "trace @ [BlockSpan (piece c) ?span]"
    obtain st1 blocks1 trace1 where
      r: "blocks_loop M X peer n is_sequential (span_end ?span) (span_begin ?span) st blocks ?trace
            = (st1, blocks1, trace1)"
      by (cases "blocks_loop M X peer n is_sequential (span_end ?span) (span_begin ?span)
                   st blocks ?trace")
    have 1: "loop_post M n is_sequential ?visited st blocks trace (st, blocks, ?trace)"
      by (rule loop_post_plain_call) (simp add: plain_call_def)
    have "loop_post M n is_sequential (\<lambda>x. span_begin ?span \<le> x \<and> x < span_end ?span)
            st blocks ?trace (st1, blocks1, trace1)"
      using blocks_loop_post[OF assms, of n "span_begin ?span" "span_end ?span" st blocks
          ?trace X peer] r by simp
    then have 2: "loop_post M n is_sequential ?visited st blocks ?trace (st1, blocks1, trace1)"
      by (rule loop_post_weaken) (auto simp: span_contains_def)
    have "loop_post M n is_sequential
           (\<lambda>x. \<exists>c\<in>set cs. span_contains (blockSpan M (piece c)) x) st1 blocks1 trace1
           (candidates_mining_loop M X peer n is_sequential cs st1 blocks1 trace1)"
      by (rule Cons.IH)
    then have 3: "loop_post M n is_sequential ?visited st1 blocks1 trace1
           (candidates_mining_loop M X peer n is_sequential cs st1 blocks1 trace1)"
      by (rule loop_post_weaken) auto
    have "candidates_mining_loop M X peer n is_sequential (c # cs) st blocks trace
        = candidates_mining_loop M X peer n is_sequential cs st1 blocks1 trace1"
      using False r by simp
    then show ?thesis
      using loop_post_trans[OF loop_post_trans[OF 1 2] 3] by simp
  qed
qed

subsection \<open>The blocks picked by next\<close>

lemma set_expand_span: "set (expand_span s) = {b. span_contains s b}"
proof (intro set_eqI iffI)
  fix b assume "b \<in> set (expand_span s)"
  then obtain k where k: "b = of_nat k" "unat (span_begin s) \<le> k" "k < unat (span_end s)"
    by (auto simp: expand_span_def)
  have "unat (of_nat k :: 32 word) = k" using k(3) le_unat_uoi[of k "span_end s"] by simp
  then show "b \<in> {b. span_contains s b}"
    using k by (simp add: span_contains_def word_le_nat_alt word_less_nat_alt)
next
  fix b assume "b \<in> {b. span_contains s b}"
  then have "unat (span_begin s) \<le> unat b" "unat b < unat (span_end s)"
    by (simp_all add: span_contains_def word_le_nat_alt word_less_nat_alt)
  then have "unat b \<in> set [unat (span_begin s)..<unat (span_end s)]" by simp
  then have "(of_nat (unat b) :: 32 word) \<in> of_nat ` set [unat (span_begin s)..<unat (span_end s)]"
    by (rule imageI)
  then show "b \<in> set (expand_span s)" by (simp add: expand_span_def)
qed

lemma length_expand_span:
  assumes "span_ok s"
  shows "length (expand_span s) = unat (span_end s - span_begin s)"
proof -
  have "span_begin s \<le> span_end s" using assms by (simp add: span_ok_def)
  then have "unat (span_end s - span_begin s) = unat (span_end s) - unat (span_begin s)"
    by (rule unat_sub)
  then show ?thesis by (simp add: expand_span_def)
qed

lemma length_expand_spans:
  assumes "\<forall>s\<in>set spans. span_ok s"
  shows "length (expand_spans spans) = (\<Sum>s\<leftarrow>spans. unat (span_end s - span_begin s))"
  using assms
  by (induction spans) (simp_all add: expand_spans_def length_expand_span)

lemma next_blocks_post:
  assumes "next_blocks M X n peer st = (blocks_v, st', trace)"
  shows "loop_post M n (isSequentialDownload M)
           (\<lambda>x. \<exists>c\<in>set (fst (ordered_candidates M X)). span_contains (blockSpan M (piece c)) x)
           st {} (snd (ordered_candidates M X)) (st', set blocks_v, trace)"
    and "sorted_wrt (<) blocks_v" and "distinct blocks_v"
proof -
  obtain cs tr0 where oc: "ordered_candidates M X = (cs, tr0)"
    by (cases "ordered_candidates M X")
  obtain blocks where
    r: "candidates_mining_loop M X peer n (isSequentialDownload M) cs st {} tr0
          = (st', blocks, trace)"
    and v: "blocks_v = sorted_list_of_set blocks"
    using assms oc by (auto simp: next_blocks_def split: prod.splits)
  have s: "set blocks_v = blocks" using v by simp
  show "loop_post M n (isSequentialDownload M)
           (\<lambda>x. \<exists>c\<in>set (fst (ordered_candidates M X)). span_contains (blockSpan M (piece c)) x)
           st {} (snd (ordered_candidates M X)) (st', set blocks_v, trace)"
    using candidates_mining_loop_post[of "isSequentialDownload M" M n cs st "{}" tr0 X peer]
      r s oc by simp
  show "sorted_wrt (<) blocks_v" using v by (simp add: strict_sorted_list_of_set)
  show "distinct blocks_v" using v by simp
qed

lemma next_blocks_facts:
  assumes "next_blocks M X n peer st = (blocks_v, st', trace)"
  shows "length blocks_v \<le> unat n"
    and "calls_guarded M trace"
    and "\<not> isSequentialDownload M \<Longrightarrow> st' = st \<and> (\<forall>c\<in>set trace. plain_call c)"
    and "\<And>x. x \<in> set blocks_v \<Longrightarrow>
           clientCanRequestBlock M x \<and> reread_below_max M x trace
           \<and> (\<exists>c\<in>set (fst (ordered_candidates M X)). span_contains (blockSpan M (piece c)) x)"
proof -
  let ?tr0 = "snd (ordered_candidates M X)"
  from next_blocks_post(1)[OF assms] obtain ext where
    ext: "trace = ?tr0 @ ext" "calls_guarded M ext"
      "\<forall>x\<in>set blocks_v - {}.
         (\<exists>c\<in>set (fst (ordered_candidates M X)). span_contains (blockSpan M (piece c)) x)
         \<and> clientCanRequestBlock M x \<and> reread_below_max M x ext"
      "\<not> isSequentialDownload M \<longrightarrow>
         st' = st \<and> (\<forall>c\<in>set ext. \<not> is_cancellation c \<and> \<not> is_preemption c)"
    and card: "card ({} :: tr_block_index_t set) \<le> unat n \<longrightarrow> card (set blocks_v) \<le> unat n"
    unfolding loop_post_def by auto
  have plain0: "\<forall>c\<in>set ?tr0. plain_call c" by (rule ordered_candidates_plain)
  show "length blocks_v \<le> unat n"
    using card next_blocks_post(3)[OF assms] by (simp add: distinct_card)
  have "calls_guarded M ?tr0"
    using plain0 by (auto intro!: calls_guarded_plain simp: plain_call_def)
  then show "calls_guarded M trace"
    using ext(1,2) calls_guarded_append by blast
  show "st' = st \<and> (\<forall>c\<in>set trace. plain_call c)" if "\<not> isSequentialDownload M"
    using that ext(1,4) plain0 by (auto simp: plain_call_def)
  show "clientCanRequestBlock M x \<and> reread_below_max M x trace
           \<and> (\<exists>c\<in>set (fst (ordered_candidates M X)). span_contains (blockSpan M (piece c)) x)"
    if "x \<in> set blocks_v" for x
  proof -
    have "(\<exists>c\<in>set (fst (ordered_candidates M X)). span_contains (blockSpan M (piece c)) x)
         \<and> clientCanRequestBlock M x \<and> reread_below_max M x ext"
      using that ext(3) by simp
    then show ?thesis
      using reread_below_max_extend[of M x ext ?tr0 "[]"] ext(1) by simp
  qed
qed

lemma makeSpans_of_next_blocks:
  assumes "next_blocks M X n peer st = (blocks_v, st', trace)"
  shows "expand_spans (makeSpans blocks_v) = blocks_v"
    and "\<forall>s\<in>set (makeSpans blocks_v). span_ok s"
    and "spans_ordered (makeSpans blocks_v)"
proof -
  have "\<forall>b\<in>set blocks_v. b < - 1"
  proof
    fix b assume "b \<in> set blocks_v"
    then obtain c :: Candidate where "span_contains (blockSpan M (piece c)) b"
      using next_blocks_facts(4)[OF assms] by blast
    then have "b < span_end (blockSpan M (piece c))" by (simp add: span_contains_def)
    moreover have "span_end (blockSpan M (piece c)) \<le> - 1" by simp
    ultimately show "b < - 1" by (rule less_le_trans)
  qed
  then have "expand_spans (makeSpans blocks_v) = blocks_v
       \<and> spans_ordered (makeSpans blocks_v)
       \<and> (\<forall>s\<in>set (makeSpans blocks_v). span_ok s)"
    using makeSpans_props[OF next_blocks_post(2)[OF assms]] by blast
  then show "expand_spans (makeSpans blocks_v) = blocks_v"
    and "\<forall>s\<in>set (makeSpans blocks_v). span_ok s"
    and "spans_ordered (makeSpans blocks_v)" by auto
qed

text \<open>
  C1: every block \<open>b\<close> covered by a span that \<open>next\<close> returns is requestable
  (\<open>clientCanRequestBlock\<close>), lies in the block span of a piece \<open>p\<close> below the piece
  count that the client may request and that misses blocks, and the trace of the call
  holds the re-read of \<open>countActiveRequests(b)\<close> with a count below \<open>max_peers\<close>
  (2 in endgame, else 1). \<open>std::partial_sort\<close> is assumed to keep its contract.
\<close>

theorem returned_blocks_eligible:
  assumes "partial_sort_contract (partial_sort X)"
    and "s \<in> set (fst (Wishlist_next M X n_wanted_blocks peer st))"
    and "span_contains s b"
  shows "clientCanRequestBlock M b
       \<and> (\<exists>p. p < countAllPieces M \<and> clientCanRequestPiece M p
              \<and> countMissingBlocks M p \<noteq> 0 \<and> span_contains (blockSpan M p) b)
       \<and> reread_below_max M b (snd (snd (Wishlist_next M X n_wanted_blocks peer st)))"
proof -
  have n: "n_wanted_blocks \<noteq> 0" using assms(2) by (auto simp: Wishlist_next_def)
  obtain blocks_v st' trace where
    nb: "next_blocks M X n_wanted_blocks peer st = (blocks_v, st', trace)"
    by (cases "next_blocks M X n_wanted_blocks peer st")
  have w: "Wishlist_next M X n_wanted_blocks peer st = (makeSpans blocks_v, st', trace)"
    using n nb by (simp add: Wishlist_next_def)
  have "b \<in> set (expand_spans (makeSpans blocks_v))"
    using assms(2,3) w set_expand_span[of s] by (auto simp: expand_spans_def)
  then have b: "b \<in> set blocks_v" using makeSpans_of_next_blocks(1)[OF nb] by simp
  from next_blocks_facts(4)[OF nb b] obtain c where
    c: "clientCanRequestBlock M b" "reread_below_max M b trace"
      "c \<in> set (fst (ordered_candidates M X))" "span_contains (blockSpan M (piece c)) b"
    by blast
  have "c \<in> set (fst (getCandidates M (salter X)))"
    using c(3) ordered_candidates_set[of M X] assms(1) by simp
  then have "piece c < countAllPieces M \<and> clientCanRequestPiece M (piece c)
         \<and> countMissingBlocks M (piece c) \<noteq> 0"
    by (rule getCandidates_wanted)
  then show ?thesis using c w by auto
qed

lemma scenario_B_next:
  "Wishlist_next scenario_B idle_externals 3 0 scenario_B_requests
     = ([\<lparr>span_begin = 0, span_end = 1\<rparr>, \<lparr>span_begin = 2, span_end = 3\<rparr>],
        scenario_B_requests,
        [CountAllPieces 1, ClientCanRequestPiece 0 True, CountMissingBlocks 0 3,
         IsSequentialDownload False, SequentialDownloadFromPiece 0, Priority 0 0,
         IsSequentialDownload False, BlockSpan 0 \<lparr>span_begin = 0, span_end = 3\<rparr>,
         ClientCanRequestBlock 0 True, CountActiveRequests 0 1, IsEndgame True,
         ClientCanRequestBlock 1 True, CountActiveRequests 1 2, IsEndgame True,
         ClientCanRequestBlock 2 True, CountActiveRequests 2 0, IsEndgame True])"
  by code_simp

theorem returned_blocks_eligible_witness:
  "partial_sort_contract (partial_sort idle_externals)
   \<and> fst (Wishlist_next scenario_B idle_externals 3 0 scenario_B_requests)
       = [\<lparr>span_begin = 0, span_end = 1\<rparr>, \<lparr>span_begin = 2, span_end = 3\<rparr>]
   \<and> span_contains \<lparr>span_begin = 0, span_end = 1\<rparr> 0
   \<and> clientCanRequestBlock scenario_B 0
   \<and> (\<exists>p. p < countAllPieces scenario_B \<and> clientCanRequestPiece scenario_B p
          \<and> countMissingBlocks scenario_B p \<noteq> 0
          \<and> span_contains (blockSpan scenario_B p) 0)
   \<and> reread_below_max scenario_B 0
        (snd (snd (Wishlist_next scenario_B idle_externals 3 0 scenario_B_requests)))"
proof -
  have c: "partial_sort_contract (partial_sort idle_externals)"
    using sort_all_contract by (simp add: idle_externals_def table_externals_def)
  have s: "\<lparr>span_begin = 0, span_end = 1\<rparr>
      \<in> set (fst (Wishlist_next scenario_B idle_externals 3 0 scenario_B_requests))"
    by (simp add: scenario_B_next)
  have b: "span_contains \<lparr>span_begin = 0, span_end = 1\<rparr> 0" by (simp add: span_contains_def)
  show ?thesis
    using returned_blocks_eligible[OF c s b] c b by (simp add: scenario_B_next)
qed

subsection \<open>Budget, order of the picked blocks, and preemption\<close>

lemma Wishlist_next_unfold:
  assumes "n_wanted_blocks \<noteq> 0"
  shows "Wishlist_next M X n_wanted_blocks peer st =
           (makeSpans (fst (next_blocks M X n_wanted_blocks peer st)),
            snd (next_blocks M X n_wanted_blocks peer st))"
  using assms by (simp add: Wishlist_next_def split: prod.splits)

text \<open>
  C3: the spans that \<open>next\<close> returns cover at most \<open>n_wanted_blocks\<close> block indices: the
  sum of \<open>end - begin\<close> over the returned spans is at most \<open>n_wanted_blocks\<close>.
\<close>

theorem returned_block_count_bounded:
  "(\<Sum>s\<leftarrow>fst (Wishlist_next M X n_wanted_blocks peer st). unat (span_end s - span_begin s))
     \<le> unat n_wanted_blocks"
proof (cases "n_wanted_blocks = 0")
  case True
  then show ?thesis by (simp add: Wishlist_next_def)
next
  case False
  obtain blocks_v st' trace where
    nb: "next_blocks M X n_wanted_blocks peer st = (blocks_v, st', trace)"
    by (cases "next_blocks M X n_wanted_blocks peer st")
  have "(\<Sum>s\<leftarrow>makeSpans blocks_v. unat (span_end s - span_begin s))
      = length (expand_spans (makeSpans blocks_v))"
    using length_expand_spans[OF makeSpans_of_next_blocks(2)[OF nb]] by simp
  also have "\<dots> = length blocks_v" using makeSpans_of_next_blocks(1)[OF nb] by simp
  also have "\<dots> \<le> unat n_wanted_blocks" by (rule next_blocks_facts(1)[OF nb])
  finally show ?thesis using nb by (simp add: Wishlist_next_unfold[OF False])
qed

lemma scenario_A_next:
  "Wishlist_next scenario_A idle_externals 5 0 [] =
     ([\<lparr>span_begin = 4, span_end = 9\<rparr>], [],
      [CountAllPieces 3, ClientCanRequestPiece 0 True, CountMissingBlocks 0 3,
       ClientCanRequestPiece 1 True, CountMissingBlocks 1 1,
       ClientCanRequestPiece 2 True, CountMissingBlocks 2 2,
       IsSequentialDownload False, SequentialDownloadFromPiece 0, Priority 0 0,
       Priority 1 0, Priority 2 0, IsSequentialDownload False,
       BlockSpan 1 \<lparr>span_begin = 4, span_end = 8\<rparr>, ClientCanRequestBlock 4 True,
       CountActiveRequests 4 0, IsEndgame False, ClientCanRequestBlock 5 True,
       CountActiveRequests 5 0, IsEndgame False, ClientCanRequestBlock 6 True,
       CountActiveRequests 6 0, IsEndgame False, ClientCanRequestBlock 7 True,
       CountActiveRequests 7 0, IsEndgame False,
       BlockSpan 2 \<lparr>span_begin = 8, span_end = 12\<rparr>,
       ClientCanRequestBlock 8 True, CountActiveRequests 8 0, IsEndgame False])"
  by code_simp

theorem returned_block_count_bounded_witness:
  "fst (Wishlist_next scenario_A idle_externals 5 0 []) = [\<lparr>span_begin = 4, span_end = 9\<rparr>]
   \<and> (\<Sum>s\<leftarrow>fst (Wishlist_next scenario_A idle_externals 5 0 []).
         unat (span_end s - span_begin s)) \<le> unat (5 :: size_t)"
  using returned_block_count_bounded[of scenario_A idle_externals 5 0 "[]"]
  by (simp add: scenario_A_next)

text \<open>
  When the budget is not reached, the loops have walked every block of every candidate.
\<close>

lemma reread_at_max_extend:
  assumes "reread_at_max M b ys"
  shows "reread_at_max M b (xs @ ys @ zs)"
proof -
  from assms obtain pre k post where
    "ys = pre @ [CountActiveRequests b k, IsEndgame (isEndgame M)] @ post"
    "(if isEndgame M then 2 else 1) \<le> k"
    unfolding reread_at_max_def by blast
  then have "xs @ ys @ zs
      = (xs @ pre) @ [CountActiveRequests b k, IsEndgame (isEndgame M)] @ (post @ zs)
        \<and> (if isEndgame M then 2 else 1) \<le> k" by simp
  then show ?thesis unfolding reread_at_max_def by blast
qed

lemma examined_mono:
  assumes "examined M blocks trace b" and "blocks \<subseteq> blocks'"
  shows "examined M blocks' (pre @ trace @ ext) b"
  using assms reread_at_max_extend[of M b trace pre ext]
  unfolding examined_def by blast

lemma visit_block_examined:
  assumes "visit_block M X peer is_sequential block st = (st', selected, calls)"
  shows "examined M (if selected then insert block blocks else blocks) calls block"
proof (cases "clientCanRequestBlock M block")
  case False
  then show ?thesis by (simp add: examined_def)
next
  case True
  obtain st1 tr where p: "preempt M X peer is_sequential block st = (st1, tr)"
    by (cases "preempt M X peer is_sequential block st")
  let ?k = "countActiveRequests M st1 block"
  have calls: "calls = (ClientCanRequestBlock block True # tr)
        @ [CountActiveRequests block ?k, IsEndgame (isEndgame M)] @ []"
    and sel: "selected = (\<not> (if isEndgame M then 2 else 1) \<le> ?k)"
    using assms True p by (auto simp: visit_block_def Let_def)
  show ?thesis
  proof (cases selected)
    case True
    then show ?thesis by (simp add: examined_def)
  next
    case False
    then have "(if isEndgame M then 2 else 1) \<le> ?k" using sel by simp
    then have "reread_at_max M block calls"
      unfolding reread_at_max_def using calls by blast
    then show ?thesis by (simp add: examined_def)
  qed
qed

lemma loop_post_grows:
  assumes "loop_post M n is_sequential visited st blocks trace (st', blocks', trace')"
  shows "blocks \<subseteq> blocks'" and "\<exists>ext. trace' = trace @ ext" and "card blocks \<le> card blocks'"
proof -
  show sub: "blocks \<subseteq> blocks'" using assms by (simp add: loop_post_def)
  show "\<exists>ext. trace' = trace @ ext" using assms by (auto simp: loop_post_def)
  show "card blocks \<le> card blocks'" using sub by (simp add: card_mono)
qed

lemma blocks_loop_examines:
  assumes "is_sequential \<longrightarrow> isSequentialDownload M"
    and "blocks_loop M X peer n is_sequential end_block block st blocks trace
           = (st', blocks', trace')"
    and "card blocks' < unat n"
    and "block \<le> x" "x < end_block"
  shows "examined M blocks' trace' x"
  using assms
proof (induction M X peer n is_sequential end_block block st blocks trace
        rule: blocks_loop.induct)
  case (1 M X peer n is_sequential end_block block st blocks trace)
  have "loop_post M n is_sequential (\<lambda>x. block \<le> x \<and> x < end_block) st blocks trace
      (st', blocks', trace')"
    unfolding "1.prems"(2)[symmetric] by (rule blocks_loop_post[OF "1.prems"(1)])
  then have grow: "card blocks \<le> card blocks'" by (rule loop_post_grows(3))
  have cond: "block < end_block \<and> card blocks < unat n"
    using "1.prems"(3,4,5) grow by auto
  obtain st1 selected calls where
    v: "visit_block M X peer is_sequential block st = (st1, selected, calls)"
    by (cases "visit_block M X peer is_sequential block st")
  let ?blocks = "if selected then insert block blocks else blocks"
  have rec: "blocks_loop M X peer n is_sequential end_block (block + 1) st1 ?blocks
        (trace @ calls) = (st', blocks', trace')"
    using cond v "1.prems"(2)
    by (simp add: blocks_loop.simps[of M X peer n is_sequential end_block block])
  show ?case
  proof (cases "x = block")
    case True
    have post: "loop_post M n is_sequential (\<lambda>x. block + 1 \<le> x \<and> x < end_block) st1 ?blocks
        (trace @ calls) (st', blocks', trace')"
      unfolding rec[symmetric] by (rule blocks_loop_post[OF "1.prems"(1)])
    obtain ext where ext: "trace' = (trace @ calls) @ ext"
      using loop_post_grows(2)[OF post] by blast
    have "examined M ?blocks calls block" by (rule visit_block_examined[OF v])
    then have "examined M blocks' (trace @ calls @ ext) block"
      using loop_post_grows(1)[OF post] by (rule examined_mono)
    then show ?thesis using True ext by simp
  next
    case False
    then have "block < x" using "1.prems"(4) by simp
    then have "block + 1 \<le> x" by (rule inc_le)
    then show ?thesis
      using "1.IH"[OF cond v[symmetric] refl "1.prems"(1) rec "1.prems"(3) _ "1.prems"(5)]
      by simp
  qed
qed

lemma candidates_mining_loop_examines:
  assumes "is_sequential \<longrightarrow> isSequentialDownload M"
    and "candidates_mining_loop M X peer n is_sequential candidates st blocks trace
           = (st', blocks', trace')"
    and "card blocks' < unat n"
    and "c \<in> set candidates" "span_contains (blockSpan M (piece c)) x"
  shows "examined M blocks' trace' x"
  using assms(2,4)
proof (induction candidates arbitrary: st blocks trace)
  case Nil
  then show ?case by simp
next
  case (Cons c0 cs)
  have "loop_post M n is_sequential
      (\<lambda>x. \<exists>c\<in>set (c0 # cs). span_contains (blockSpan M (piece c)) x) st blocks trace
      (st', blocks', trace')"
    unfolding Cons.prems(1)[symmetric] by (rule candidates_mining_loop_post[OF assms(1)])
  then have grow: "card blocks \<le> card blocks'" by (rule loop_post_grows(3))
  then have room: "\<not> unat n \<le> card blocks" using assms(3) by simp
  let ?span = "blockSpan M (piece c0)"
  let ?trace = "trace @ [BlockSpan (piece c0) ?span]"
  obtain st1 blocks1 trace1 where
    r: "blocks_loop M X peer n is_sequential (span_end ?span) (span_begin ?span) st blocks ?trace
          = (st1, blocks1, trace1)"
    by (cases "blocks_loop M X peer n is_sequential (span_end ?span) (span_begin ?span)
                 st blocks ?trace")
  have rest: "candidates_mining_loop M X peer n is_sequential cs st1 blocks1 trace1
      = (st', blocks', trace')"
    using Cons.prems(1) room r by simp
  have post: "loop_post M n is_sequential
      (\<lambda>x. \<exists>c\<in>set cs. span_contains (blockSpan M (piece c)) x) st1 blocks1 trace1
      (st', blocks', trace')"
    unfolding rest[symmetric] by (rule candidates_mining_loop_post[OF assms(1)])
  show ?case
  proof (cases "c = c0")
    case True
    have "card blocks1 < unat n" using loop_post_grows(3)[OF post] assms(3) by simp
    then have "examined M blocks1 trace1 x"
      using blocks_loop_examines[OF assms(1) r] assms(5) True
      by (simp add: span_contains_def)
    moreover obtain ext where "trace' = trace1 @ ext"
      using loop_post_grows(2)[OF post] by blast
    ultimately show ?thesis
      using examined_mono[of M blocks1 trace1 x blocks' "[]" ext] loop_post_grows(1)[OF post]
      by simp
  next
    case False
    then have "c \<in> set cs" using Cons.prems(2) by simp
    then show ?thesis using Cons.IH[OF rest] by simp
  qed
qed


lemma next_blocks_examines:
  assumes nb: "next_blocks M X n peer st = (blocks_v, st', trace)"
    and short: "length blocks_v < unat n"
    and c: "c \<in> set (fst (ordered_candidates M X))"
    and b: "span_contains (blockSpan M (piece c)) b"
  shows "examined M (set blocks_v) trace b"
proof -
  obtain cs tr0 where oc: "ordered_candidates M X = (cs, tr0)"
    by (cases "ordered_candidates M X")
  obtain blocks where
    r: "candidates_mining_loop M X peer n (isSequentialDownload M) cs st {} tr0
          = (st', blocks, trace)"
    and v: "blocks_v = sorted_list_of_set blocks"
    using nb oc by (auto simp: next_blocks_def split: prod.splits)
  have s: "set blocks_v = blocks" and l: "length blocks_v = card blocks" using v by simp_all
  have "examined M blocks trace b"
    using candidates_mining_loop_examines[OF _ r _ _ b] short l c oc by simp
  then show ?thesis using s by simp
qed

text \<open>
  C10: the sequence \<open>blocks_v\<close> that \<open>next\<close> hands to \<open>makeSpans\<close> is strictly ascending
  and free of duplicates, and it has at most \<open>n_wanted_blocks\<close> elements. The budget is
  spent by distinct blocks only: if fewer than \<open>n_wanted_blocks\<close> blocks are handed over,
  the loops never stopped for the budget, so every block of every candidate's span was
  examined (it is in the sequence, or not requestable, or passed over by the duplication
  policy). Nothing is assumed of \<open>blockSpan\<close>: in the witness piece 0 reports the blocks
  \<open>0 .. 3\<close> and piece 1 the blocks \<open>2 .. 5\<close>, blocks 2 and 3 are inserted twice, and a
  budget of 6 still yields the six blocks \<open>0 .. 5\<close>.
\<close>

theorem picked_blocks_unique_budget:
  "sorted_wrt (<) (fst (next_blocks M X n_wanted_blocks peer st))
   \<and> distinct (fst (next_blocks M X n_wanted_blocks peer st))
   \<and> length (fst (next_blocks M X n_wanted_blocks peer st)) \<le> unat n_wanted_blocks
   \<and> (length (fst (next_blocks M X n_wanted_blocks peer st)) < unat n_wanted_blocks \<longrightarrow>
        (\<forall>c\<in>set (fst (ordered_candidates M X)). \<forall>b.
            span_contains (blockSpan M (piece c)) b \<longrightarrow>
            examined M (set (fst (next_blocks M X n_wanted_blocks peer st)))
              (snd (snd (next_blocks M X n_wanted_blocks peer st))) b))
   \<and> Wishlist_next M X n_wanted_blocks peer st =
       (if n_wanted_blocks = 0 then ([], st, [])
        else (makeSpans (fst (next_blocks M X n_wanted_blocks peer st)),
              snd (next_blocks M X n_wanted_blocks peer st)))"
proof -
  obtain blocks_v st' trace where
    nb: "next_blocks M X n_wanted_blocks peer st = (blocks_v, st', trace)"
    by (cases "next_blocks M X n_wanted_blocks peer st")
  have "\<forall>c\<in>set (fst (ordered_candidates M X)). \<forall>b.
            span_contains (blockSpan M (piece c)) b \<longrightarrow> examined M (set blocks_v) trace b"
    if "length blocks_v < unat n_wanted_blocks"
    using next_blocks_examines[OF nb that] by blast
  then show ?thesis
    using next_blocks_post(2,3)[OF nb] next_blocks_facts(1)[OF nb] nb
    by (simp add: Wishlist_next_def)
qed

lemma overlapping_pieces_candidates:
  "fst (ordered_candidates overlapping_pieces idle_externals)
     = [\<lparr>piece = 0, n_blocks_missing = 4, priority = 0, salt = 3\<rparr>,
        \<lparr>piece = 1, n_blocks_missing = 4, priority = 0, salt = 10\<rparr>]"
  by code_simp

lemma overlapping_pieces_spans:
  "blockSpan overlapping_pieces 0 = \<lparr>span_begin = 0, span_end = 4\<rparr>
   \<and> blockSpan overlapping_pieces 1 = \<lparr>span_begin = 2, span_end = 6\<rparr>"
  by (simp add: overlapping_pieces_def table_mediator_def)

lemma overlapping_pieces_blocks_6:
  "fst (next_blocks overlapping_pieces idle_externals 6 0 []) = [0, 1, 2, 3, 4, 5]"
  by code_simp

lemma overlapping_pieces_blocks_7:
  "fst (next_blocks overlapping_pieces idle_externals 7 0 []) = [0, 1, 2, 3, 4, 5]"
  by code_simp

theorem picked_blocks_unique_budget_witness:
  "blockSpan overlapping_pieces 0 = \<lparr>span_begin = 0, span_end = 4\<rparr>
   \<and> blockSpan overlapping_pieces 1 = \<lparr>span_begin = 2, span_end = 6\<rparr>
   \<and> fst (next_blocks overlapping_pieces idle_externals 6 0 []) = [0, 1, 2, 3, 4, 5]
   \<and> fst (next_blocks overlapping_pieces idle_externals 7 0 []) = [0, 1, 2, 3, 4, 5]
   \<and> length (fst (next_blocks overlapping_pieces idle_externals 7 0 [])) < unat (7 :: size_t)
   \<and> span_contains (blockSpan overlapping_pieces 1) 5
   \<and> examined overlapping_pieces
        (set (fst (next_blocks overlapping_pieces idle_externals 7 0 [])))
        (snd (snd (next_blocks overlapping_pieces idle_externals 7 0 []))) 5"
proof -
  let ?c = "\<lparr>piece = 1, n_blocks_missing = 4, priority = 0, salt = 10\<rparr>"
  have short: "length (fst (next_blocks overlapping_pieces idle_externals 7 0 []))
      < unat (7 :: size_t)"
    by (simp add: overlapping_pieces_blocks_7)
  have c: "?c \<in> set (fst (ordered_candidates overlapping_pieces idle_externals))"
    by (simp add: overlapping_pieces_candidates)
  have b: "span_contains (blockSpan overlapping_pieces (piece ?c)) 5"
    by (simp add: overlapping_pieces_spans span_contains_def)
  have "examined overlapping_pieces
        (set (fst (next_blocks overlapping_pieces idle_externals 7 0 [])))
        (snd (snd (next_blocks overlapping_pieces idle_externals 7 0 []))) 5"
    using picked_blocks_unique_budget[of overlapping_pieces idle_externals 7 0 "[]"]
      short c b by blast
  then show ?thesis
    using short b overlapping_pieces_spans overlapping_pieces_blocks_6
      overlapping_pieces_blocks_7 by simp
qed

text \<open>
  C7: in the trace of a call of \<open>next\<close>, the preemption routine (its first call,
  \<open>getPeersForActiveRequests\<close>) runs only in sequential mode, right after the block was
  found requestable and its active requests were counted as more than 0, and a
  cancellation is made only inside that routine. Outside sequential mode the trace holds
  no preemption and no cancellation, and the request table is returned unchanged.
\<close>

theorem preemption_only_when_sequential:
  "calls_guarded M (snd (snd (Wishlist_next M X n_wanted_blocks peer st)))
   \<and> (\<not> isSequentialDownload M \<longrightarrow>
        fst (snd (Wishlist_next M X n_wanted_blocks peer st)) = st
        \<and> (\<forall>c\<in>set (snd (snd (Wishlist_next M X n_wanted_blocks peer st))).
              \<not> is_cancellation c \<and> \<not> is_preemption c))"
proof (cases "n_wanted_blocks = 0")
  case True
  then show ?thesis by (simp add: Wishlist_next_def calls_guarded_Nil)
next
  case False
  obtain blocks_v st' trace where
    nb: "next_blocks M X n_wanted_blocks peer st = (blocks_v, st', trace)"
    by (cases "next_blocks M X n_wanted_blocks peer st")
  show ?thesis
    using next_blocks_facts(2,3)[OF nb] nb
    by (auto simp: Wishlist_next_unfold[OF False] plain_call_def)
qed

lemma calls_guardedD: "calls_guarded M (pre @ c # post) \<Longrightarrow> call_guarded M pre c"
  by (simp add: calls_guarded_def)

lemma scenario_D_next:
  "Wishlist_next scenario_D scenario_D_externals 3 0 scenario_D_requests =
     ([\<lparr>span_begin = 8, span_end = 11\<rparr>], [],
      [CountAllPieces 3, ClientCanRequestPiece 0 True, CountMissingBlocks 0 4,
       ClientCanRequestPiece 1 True, CountMissingBlocks 1 4,
       ClientCanRequestPiece 2 True, CountMissingBlocks 2 4,
       IsSequentialDownload True, SequentialDownloadFromPiece 2, Priority 2 0,
       Priority 0 0, Priority 1 0, IsSequentialDownload True,
       BlockSpan 2 \<lparr>span_begin = 8, span_end = 12\<rparr>,
       ClientCanRequestBlock 8 True, CountActiveRequests 8 0,
       CountActiveRequests 8 0, IsEndgame False, ClientCanRequestBlock 9 True,
       CountActiveRequests 9 0, CountActiveRequests 9 0, IsEndgame False]
      @ [ClientCanRequestBlock 10 True, CountActiveRequests 10 1]
      @ GetPeersForActiveRequests 10 [(1, 99)]
      # [CancelRequestForBlock 1 10, CountActiveRequests 10 0, IsEndgame False])"
  by code_simp

theorem preemption_only_when_sequential_witness:
  "isSequentialDownload scenario_D
   \<and> list_ex is_preemption
        (snd (snd (Wishlist_next scenario_D scenario_D_externals 3 0 scenario_D_requests)))
   \<and> call_guarded scenario_D
       ([CountAllPieces 3, ClientCanRequestPiece 0 True, CountMissingBlocks 0 4,
         ClientCanRequestPiece 1 True, CountMissingBlocks 1 4,
         ClientCanRequestPiece 2 True, CountMissingBlocks 2 4,
         IsSequentialDownload True, SequentialDownloadFromPiece 2, Priority 2 0,
         Priority 0 0, Priority 1 0, IsSequentialDownload True,
         BlockSpan 2 \<lparr>span_begin = 8, span_end = 12\<rparr>,
         ClientCanRequestBlock 8 True, CountActiveRequests 8 0,
         CountActiveRequests 8 0, IsEndgame False, ClientCanRequestBlock 9 True,
         CountActiveRequests 9 0, CountActiveRequests 9 0, IsEndgame False]
        @ [ClientCanRequestBlock 10 True, CountActiveRequests 10 1])
       (GetPeersForActiveRequests 10 [(1, 99)])
   \<and> \<not> isSequentialDownload scenario_A
   \<and> fst (snd (Wishlist_next scenario_A idle_externals 5 0 [])) = []
   \<and> list_all (\<lambda>c. \<not> is_cancellation c \<and> \<not> is_preemption c)
        (snd (snd (Wishlist_next scenario_A idle_externals 5 0 [])))"
proof -
  have D: "isSequentialDownload scenario_D"
    by (simp add: scenario_D_def table_mediator_def)
  have A: "\<not> isSequentialDownload scenario_A"
    by (simp add: scenario_A_def table_mediator_def)
  have "calls_guarded scenario_D
      (snd (snd (Wishlist_next scenario_D scenario_D_externals 3 0 scenario_D_requests)))"
    using preemption_only_when_sequential[of scenario_D scenario_D_externals 3 0
        scenario_D_requests] by simp
  then have 1: "call_guarded scenario_D
       ([CountAllPieces 3, ClientCanRequestPiece 0 True, CountMissingBlocks 0 4,
         ClientCanRequestPiece 1 True, CountMissingBlocks 1 4,
         ClientCanRequestPiece 2 True, CountMissingBlocks 2 4,
         IsSequentialDownload True, SequentialDownloadFromPiece 2, Priority 2 0,
         Priority 0 0, Priority 1 0, IsSequentialDownload True,
         BlockSpan 2 \<lparr>span_begin = 8, span_end = 12\<rparr>,
         ClientCanRequestBlock 8 True, CountActiveRequests 8 0,
         CountActiveRequests 8 0, IsEndgame False, ClientCanRequestBlock 9 True,
         CountActiveRequests 9 0, CountActiveRequests 9 0, IsEndgame False]
        @ [ClientCanRequestBlock 10 True, CountActiveRequests 10 1])
       (GetPeersForActiveRequests 10 [(1, 99)])"
    by (intro calls_guardedD[where post = "[CancelRequestForBlock 1 10,
          CountActiveRequests 10 0, IsEndgame False]"]) (simp add: scenario_D_next)
  have 2: "fst (snd (Wishlist_next scenario_A idle_externals 5 0 [])) = []
   \<and> list_all (\<lambda>c. \<not> is_cancellation c \<and> \<not> is_preemption c)
        (snd (snd (Wishlist_next scenario_A idle_externals 5 0 [])))"
    using preemption_only_when_sequential[of scenario_A idle_externals 5 0 "[]"] A
    by (simp add: list_all_iff)
  have 3: "list_ex is_preemption
        (snd (snd (Wishlist_next scenario_D scenario_D_externals 3 0 scenario_D_requests)))"
    by (simp add: scenario_D_next)
  show ?thesis using D A 1 2 3 by blast
qed

subsection \<open>Sequential rotation\<close>

lemma std_rotate_eq_rotate:
  assumes "k < length xs"
  shows "std_rotate k xs = rotate k xs"
  using assms by (simp add: std_rotate_def rotate_drop_take)

lemma hd_std_rotate:
  assumes "k < length xs"
  shows "hd (std_rotate k xs) = xs ! k"
  using assms by (simp add: std_rotate_def hd_append hd_drop_conv_nth)

lemma wanted_prefix_nth:
  assumes all: "\<forall>p\<le>origin. is_wanted M p"
    and len: "unat origin < length (wanted_pieces_vector M)"
  shows "wanted_pieces_vector M ! unat origin = (origin, countMissingBlocks M origin)"
proof -
  let ?n = "unat (countAllPieces M)"
  let ?k = "unat origin"
  let ?g = "\<lambda>p. (p, countMissingBlocks M p)"
  have "length (wanted_pieces_vector M) \<le> ?n"
    using length_filter_le[of "is_wanted M" "map of_nat [0..<?n]"]
    by (simp add: wanted_pieces_vector_eq)
  then have k: "Suc ?k \<le> ?n" using len by simp
  have split: "[0..<?n] = [0..<Suc ?k] @ [Suc ?k..<?n]"
    using k by (metis le_add_diff_inverse upt_add_eq_append zero_le)
  have keep: "filter (is_wanted M) (map of_nat [0..<Suc ?k]) = map of_nat [0..<Suc ?k]"
  proof (rule filter_True, clarsimp simp del: upt_Suc)
    fix j assume j: "j < Suc ?k"
    then have "unat (of_nat j :: 32 word) = j" using le_unat_uoi[of j origin] by simp
    then have "(of_nat j :: 32 word) \<le> origin" using j by (simp add: word_le_nat_alt)
    then show "is_wanted M (of_nat j)" using all by blast
  qed
  have "wanted_pieces_vector M
      = map ?g (map of_nat [0..<Suc ?k])
        @ map ?g (filter (is_wanted M) (map of_nat [Suc ?k..<?n]))"
    unfolding wanted_pieces_vector_eq by (subst split) (simp only: map_append filter_append keep)
  then have "wanted_pieces_vector M ! ?k = map ?g (map of_nat [0..<Suc ?k]) ! ?k"
    by (simp add: nth_append del: upt_Suc)
  also have "\<dots> = ?g (of_nat ?k)" by (simp del: upt_Suc add: nth_map)
  finally show ?thesis by simp
qed

text \<open>
  What the rotation of \<open>getCandidates\<close> does: the wanted pieces \<open>W\<close> are the requestable
  pieces with missing blocks, in ascending order. If the download is sequential and
  \<open>origin = sequentialDownloadFromPiece()\<close> satisfies \<open>0 < origin < len(W)\<close>, the
  candidates are \<open>W\<close> rotated left by \<open>origin\<close>, the mining loop walks them in that
  order, and its first candidate is the entry \<open>W[origin]\<close>, which is piece \<open>origin\<close> only
  when every piece \<open>0 .. origin\<close> is wanted. Otherwise the candidates are \<open>W\<close>, unrotated.
\<close>

lemma sequential_rotation:
  "wanted_pieces_vector M
     = map (\<lambda>p. (p, countMissingBlocks M p))
         (filter (is_wanted M) (map of_nat [0..<unat (countAllPieces M)]))
   \<and> (isSequentialDownload M \<and> 0 < sequentialDownloadFromPiece M
       \<and> unat (sequentialDownloadFromPiece M) < length (wanted_pieces_vector M) \<longrightarrow>
         map (\<lambda>c. (piece c, n_blocks_missing c)) (fst (getCandidates M (salter X)))
           = rotate (unat (sequentialDownloadFromPiece M)) (wanted_pieces_vector M)
         \<and> fst (ordered_candidates M X) = fst (getCandidates M (salter X))
         \<and> (piece (hd (fst (ordered_candidates M X))),
             n_blocks_missing (hd (fst (ordered_candidates M X))))
           = wanted_pieces_vector M ! unat (sequentialDownloadFromPiece M)
         \<and> ((\<forall>p \<le> sequentialDownloadFromPiece M. is_wanted M p) \<longrightarrow>
              piece (hd (fst (ordered_candidates M X))) = sequentialDownloadFromPiece M))
   \<and> (\<not> (isSequentialDownload M \<and> 0 < sequentialDownloadFromPiece M
          \<and> unat (sequentialDownloadFromPiece M) < length (wanted_pieces_vector M)) \<longrightarrow>
         map (\<lambda>c. (piece c, n_blocks_missing c)) (fst (getCandidates M (salter X)))
           = wanted_pieces_vector M)"
proof (intro conjI impI)
  let ?W = "wanted_pieces_vector M"
  let ?k = "unat (sequentialDownloadFromPiece M)"
  let ?cs = "fst (getCandidates M (salter X))"
  let ?f = "\<lambda>c. (piece c, n_blocks_missing c)"
  show "?W = map (\<lambda>p. (p, countMissingBlocks M p))
         (filter (is_wanted M) (map of_nat [0..<unat (countAllPieces M)]))"
    by (rule wanted_pieces_vector_eq)
  show "map ?f ?cs = ?W"
    if "\<not> (isSequentialDownload M \<and> 0 < sequentialDownloadFromPiece M \<and> ?k < length ?W)"
    using that getCandidates_pieces[of M "salter X"] by (auto simp: rotated_wanted_pieces_def)
  assume v: "isSequentialDownload M \<and> 0 < sequentialDownloadFromPiece M \<and> ?k < length ?W"
  have m: "map ?f ?cs = std_rotate ?k ?W"
    using v getCandidates_pieces[of M "salter X"] by (simp add: rotated_wanted_pieces_def)
  show "map ?f ?cs = rotate ?k ?W" using m v by (simp add: std_rotate_eq_rotate)
  show o: "fst (ordered_candidates M X) = ?cs" using v by (simp add: ordered_candidates_fst)
  have ne: "?cs \<noteq> []" using m v by (auto simp: std_rotate_def)
  have "?f (hd ?cs) = hd (map ?f ?cs)" using ne by (simp add: hd_map)
  also have "\<dots> = ?W ! ?k" using m v by (simp add: hd_std_rotate)
  finally have h: "?f (hd ?cs) = ?W ! ?k" .
  show "(piece (hd (fst (ordered_candidates M X))),
         n_blocks_missing (hd (fst (ordered_candidates M X)))) = ?W ! ?k"
    using h o by simp
  show "piece (hd (fst (ordered_candidates M X))) = sequentialDownloadFromPiece M"
    if "\<forall>p \<le> sequentialDownloadFromPiece M. is_wanted M p"
    using wanted_prefix_nth[OF that] v h o by simp
qed

lemma scenario_D_candidates:
  "map piece (fst (ordered_candidates scenario_D scenario_D_externals)) = [2, 0, 1]"
  by code_simp

text \<open>Scenario C of the spec, where every piece is wanted.\<close>

lemma sequential_rotation_scenario_C:
  "isSequentialDownload scenario_D \<and> 0 < sequentialDownloadFromPiece scenario_D
   \<and> unat (sequentialDownloadFromPiece scenario_D) < length (wanted_pieces_vector scenario_D)
   \<and> list_all (is_wanted scenario_D) [0, 1, 2]
   \<and> sequentialDownloadFromPiece scenario_D = 2
   \<and> map piece (fst (ordered_candidates scenario_D scenario_D_externals)) = [2, 0, 1]
   \<and> piece (hd (fst (ordered_candidates scenario_D scenario_D_externals)))
       = sequentialDownloadFromPiece scenario_D"
proof -
  have W: "wanted_pieces_vector scenario_D = [(0, 4), (1, 4), (2, 4)]" by code_simp
  have s: "isSequentialDownload scenario_D" "sequentialDownloadFromPiece scenario_D = 2"
    by (simp_all add: scenario_D_def table_mediator_def)
  have w: "clientCanRequestPiece scenario_D p \<and> countMissingBlocks scenario_D p = 4" for p
    by (simp add: scenario_D_def table_mediator_def)
  have all: "\<forall>p \<le> sequentialDownloadFromPiece scenario_D. is_wanted scenario_D p"
    using w by (simp add: is_wanted_def)
  have pos: "0 < sequentialDownloadFromPiece scenario_D" using s by simp
  have len: "unat (sequentialDownloadFromPiece scenario_D)
      < length (wanted_pieces_vector scenario_D)" using s W by simp
  have "piece (hd (fst (ordered_candidates scenario_D scenario_D_externals)))
       = sequentialDownloadFromPiece scenario_D"
    using sequential_rotation[of scenario_D scenario_D_externals] s(1) pos len all by blast
  then show ?thesis using s pos len w scenario_D_candidates by (simp add: is_wanted_def)
qed

text \<open>
  C5: in sequential mode with a valid origin, the first candidate is to be piece
  \<open>origin\<close> (the code's comment: start downloading from a specific piece). The code
  uses the piece number as an index into the vector of wanted pieces, so it is not: with
  four pieces of which piece 1 is complete and \<open>origin = 2\<close>, the wanted pieces are
  0, 2, 3, piece 2 is wanted and the origin is in range, yet the candidates are walked as
  3, 0, 2.
\<close>

theorem sequential_origin_missed:
  "isSequentialDownload piece_1_complete
   \<and> sequentialDownloadFromPiece piece_1_complete = 2
   \<and> map fst (wanted_pieces_vector piece_1_complete) = [0, 2, 3]
   \<and> 0 < sequentialDownloadFromPiece piece_1_complete
   \<and> unat (sequentialDownloadFromPiece piece_1_complete)
       < length (wanted_pieces_vector piece_1_complete)
   \<and> is_wanted piece_1_complete 2
   \<and> map piece (fst (ordered_candidates piece_1_complete idle_externals)) = [3, 0, 2]
   \<and> piece (hd (fst (ordered_candidates piece_1_complete idle_externals)))
       \<noteq> sequentialDownloadFromPiece piece_1_complete"
proof -
  have W: "wanted_pieces_vector piece_1_complete = [(0, 4), (2, 4), (3, 4)]" by code_simp
  have c: "map piece (fst (ordered_candidates piece_1_complete idle_externals)) = [3, 0, 2]"
    by code_simp
  have h: "piece (hd (fst (ordered_candidates piece_1_complete idle_externals))) = 3"
    by code_simp
  have s: "isSequentialDownload piece_1_complete"
    "sequentialDownloadFromPiece piece_1_complete = 2"
    "is_wanted piece_1_complete 2"
    by (simp_all add: piece_1_complete_def table_mediator_def is_wanted_def)
  show ?thesis using W c h s by simp
qed

subsection \<open>The partial sort\<close>

text \<open>
  C6, amended: \<open>Candidate::operator<\<close> is the order of the spec (fewer missing blocks
  first, then higher priority, then smaller salt). Outside sequential mode, the candidates
  walked by \<open>next\<close> are a rearrangement of those enumerated, the first \<open>min(size, 30)\<close> of
  them are in that order, and none of the others precedes one of them. In sequential mode
  no sort is made: the candidates are walked in the rotated piece order of
  \<open>getCandidates\<close>, whatever the candidate order says.
\<close>

theorem partial_sort_horizon:
  assumes "partial_sort_contract (partial_sort X)"
  shows "(\<forall>a b. Candidate_less a b \<longleftrightarrow>
            (n_blocks_missing a < n_blocks_missing b
             \<or> (n_blocks_missing a = n_blocks_missing b
                 \<and> (sint (priority b) < sint (priority a)
                     \<or> (priority a = priority b \<and> salt a < salt b)))))
       \<and> (\<not> isSequentialDownload M \<longrightarrow>
            mset (fst (ordered_candidates M X)) = mset (fst (getCandidates M (salter X)))
            \<and> sorted_wrt (\<lambda>a b. \<not> Candidate_less b a)
                (take (min (length (fst (getCandidates M (salter X)))) MaxSortedPieces)
                   (fst (ordered_candidates M X)))
            \<and> (\<forall>a\<in>set (take (min (length (fst (getCandidates M (salter X)))) MaxSortedPieces)
                           (fst (ordered_candidates M X))).
                \<forall>b\<in>set (drop (min (length (fst (getCandidates M (salter X)))) MaxSortedPieces)
                           (fst (ordered_candidates M X))).
                  \<not> Candidate_less b a))
       \<and> (isSequentialDownload M \<longrightarrow>
            fst (ordered_candidates M X) = fst (getCandidates M (salter X))
            \<and> map (\<lambda>c. (piece c, n_blocks_missing c)) (fst (ordered_candidates M X))
                = rotated_wanted_pieces M)
       \<and> MaxSortedPieces = 30"
proof (intro conjI impI allI)
  fix a b
  show "Candidate_less a b \<longleftrightarrow>
            (n_blocks_missing a < n_blocks_missing b
             \<or> (n_blocks_missing a = n_blocks_missing b
                 \<and> (sint (priority b) < sint (priority a)
                     \<or> (priority a = priority b \<and> salt a < salt b))))"
    by (rule Candidate_less_iff)
next
  assume ns: "\<not> isSequentialDownload M"
  let ?cs = "fst (getCandidates M (salter X))"
  have post: "partial_sort_post (min (length ?cs) MaxSortedPieces) ?cs
      (fst (ordered_candidates M X))"
    using ordered_candidates_post[OF assms ns] .
  show "mset (fst (ordered_candidates M X)) = mset ?cs"
    using post by (simp add: partial_sort_post_def)
  show "sorted_wrt (\<lambda>a b. \<not> Candidate_less b a)
          (take (min (length ?cs) MaxSortedPieces) (fst (ordered_candidates M X)))"
    using post by (simp add: partial_sort_post_def)
  show "\<forall>a\<in>set (take (min (length ?cs) MaxSortedPieces) (fst (ordered_candidates M X))).
          \<forall>b\<in>set (drop (min (length ?cs) MaxSortedPieces) (fst (ordered_candidates M X))).
            \<not> Candidate_less b a"
    using post by (simp add: partial_sort_post_def)
next
  assume s: "isSequentialDownload M"
  show o: "fst (ordered_candidates M X) = fst (getCandidates M (salter X))"
    using s by (simp add: ordered_candidates_fst)
  show "map (\<lambda>c. (piece c, n_blocks_missing c)) (fst (ordered_candidates M X))
      = rotated_wanted_pieces M"
    using o getCandidates_pieces[of M "salter X"] by simp
next
  show "MaxSortedPieces = 30" by (simp add: MaxSortedPieces_def)
qed

lemma scenario_A_candidates:
  "map piece (fst (ordered_candidates scenario_A idle_externals)) = [1, 2, 0]"
  by code_simp

theorem partial_sort_horizon_witness:
  "partial_sort_contract (partial_sort idle_externals)
   \<and> \<not> isSequentialDownload scenario_A
   \<and> map piece (fst (getCandidates scenario_A (salter idle_externals))) = [0, 1, 2]
   \<and> map piece (fst (ordered_candidates scenario_A idle_externals)) = [1, 2, 0]
   \<and> sorted_wrt (\<lambda>a b. \<not> Candidate_less b a)
        (take (min (length (fst (getCandidates scenario_A (salter idle_externals))))
                 MaxSortedPieces)
           (fst (ordered_candidates scenario_A idle_externals)))"
proof -
  have c: "partial_sort_contract (partial_sort idle_externals)"
    using sort_all_contract by (simp add: idle_externals_def table_externals_def)
  have ns: "\<not> isSequentialDownload scenario_A"
    by (simp add: scenario_A_def table_mediator_def)
  have g: "map piece (fst (getCandidates scenario_A (salter idle_externals))) = [0, 1, 2]"
    by code_simp
  show ?thesis
    using partial_sort_horizon[OF c, of scenario_A] ns c g scenario_A_candidates by blast
qed

text \<open>
  C6 as stated fails in sequential mode: with two pieces missing 2 and 1 blocks, the
  candidates are walked as piece 0, piece 1, though piece 1 precedes piece 0 in the
  candidate order.
\<close>

theorem sequential_candidates_unsorted:
  "isSequentialDownload sequential_unsorted
   \<and> map (\<lambda>c. (piece c, n_blocks_missing c))
        (fst (ordered_candidates sequential_unsorted idle_externals)) = [(0, 2), (1, 1)]
   \<and> \<not> sorted_wrt (\<lambda>a b. \<not> Candidate_less b a)
        (take (min (length (fst (ordered_candidates sequential_unsorted idle_externals))) 30)
           (fst (ordered_candidates sequential_unsorted idle_externals)))"
proof -
  have s: "isSequentialDownload sequential_unsorted"
    by (simp add: sequential_unsorted_def table_mediator_def)
  have c: "fst (ordered_candidates sequential_unsorted idle_externals)
      = [\<lparr>piece = 0, n_blocks_missing = 2, priority = 0, salt = 0\<rparr>,
         \<lparr>piece = 1, n_blocks_missing = 1, priority = 0, salt = 1\<rparr>]"
    by code_simp
  have l: "Candidate_less \<lparr>piece = 1, n_blocks_missing = 1, priority = 0, salt = 1\<rparr>
             \<lparr>piece = 0, n_blocks_missing = 2, priority = 0, salt = 0\<rparr>"
    by (simp add: Candidate_less_def compare_def)
  show ?thesis using s l by (simp add: c)
qed

end
